theory Spec2Isabelle
  imports Main "HOL-Library.Word" "HOL-Library.Sublist" "HOL-Library.AList"
begin

unbundle bit_operations_syntax

section \<open>JavaScript strings and byte buffers\<close>

text \<open>
  A JavaScript string is a sequence of 16-bit code units; a \<open>Uint8Array\<close> is a sequence
  of bytes. String literals of the source are written with \<open>js\<close>, which reads an ASCII
  literal as code units; the Hangul markers of the transcript format are given by their
  code units.
\<close>

type_synonym jschar = "16 word"
type_synonym jsstring = "jschar list"
type_synonym byte = "8 word"

definition js :: "string \<Rightarrow> jsstring" where
  "js s = map of_char s"

abbreviation LF :: jschar where "LF \<equiv> 0x0A"
abbreviation CR :: jschar where "CR \<equiv> 0x0D"
abbreviation TAB :: jschar where "TAB \<equiv> 0x09"
abbreviation SP :: jschar where "SP \<equiv> 0x20"

text \<open>
  \<open>String.prototype.indexOf(p, k)\<close>: the least position \<open>i \<ge> k\<close> at which \<open>p\<close> occurs,
  \<open>None\<close> for the source's \<open>-1\<close>. \<open>find_sub p s\<close> is the search from position 0.
\<close>

fun find_sub :: "'a list \<Rightarrow> 'a list \<Rightarrow> nat option" where
  "find_sub p [] = (if p = [] then Some 0 else None)"
| "find_sub p (x # xs) =
     (if prefix p (x # xs) then Some 0 else map_option Suc (find_sub p xs))"

definition indexOf :: "'a list \<Rightarrow> 'a list \<Rightarrow> nat \<Rightarrow> nat option" where
  "indexOf s p k =
     (if length s < k then (if p = [] then Some (length s) else None)
      else map_option (\<lambda>i. i + k) (find_sub p (drop k s)))"

text \<open>\<open>s.includes(p)\<close>, \<open>s.startsWith(p)\<close>, \<open>s.endsWith(p)\<close>, \<open>s.slice(a, b)\<close> for
  non-negative \<open>a\<close>, \<open>b\<close> (the empty string when \<open>b \<le> a\<close>).\<close>

definition js_includes :: "'a list \<Rightarrow> 'a list \<Rightarrow> bool" where
  "js_includes s p = (indexOf s p 0 \<noteq> None)"

definition startsWith :: "'a list \<Rightarrow> 'a list \<Rightarrow> bool" where
  "startsWith s p = prefix p s"

definition endsWith :: "'a list \<Rightarrow> 'a list \<Rightarrow> bool" where
  "endsWith s p = suffix p s"

definition slice_str :: "'a list \<Rightarrow> nat \<Rightarrow> nat \<Rightarrow> 'a list" where
  "slice_str s a b = take (b - a) (drop a s)"

section \<open>Whitespace, trimming, joining\<close>

text \<open>
  The code units that the regular-expression class \<open>\s\<close> matches and that
  \<open>String.prototype.trim\<close> strips: the white space and line terminator code points of
  ECMAScript.
\<close>

definition is_space :: "jschar \<Rightarrow> bool" where
  "is_space c \<longleftrightarrow>
     c = 0x09 \<or> c = 0x0A \<or> c = 0x0B \<or> c = 0x0C \<or> c = 0x0D \<or> c = 0x20 \<or> c = 0xA0 \<or>
     c = 0x1680 \<or> (0x2000 \<le> c \<and> c \<le> 0x200A) \<or> c = 0x2028 \<or> c = 0x2029 \<or>
     c = 0x202F \<or> c = 0x205F \<or> c = 0x3000 \<or> c = 0xFEFF"

definition js_trim :: "jsstring \<Rightarrow> jsstring" where
  "js_trim s = rev (dropWhile is_space (rev (dropWhile is_space s)))"

text \<open>\<open>Array.prototype.join\<close> on an array of strings.\<close>

fun js_join :: "'a list \<Rightarrow> 'a list list \<Rightarrow> 'a list" where
  "js_join sep [] = []"
| "js_join sep [x] = x"
| "js_join sep (x # y # r) = x @ sep @ js_join sep (y # r)"

text \<open>\<open>s.replace(/\r\n/g, "\n")\<close>.\<close>

fun crlf_to_lf :: "jsstring \<Rightarrow> jsstring" where
  "crlf_to_lf [] = []"
| "crlf_to_lf [c] = [c]"
| "crlf_to_lf (c # d # r) =
     (if c = CR \<and> d = LF then LF # crlf_to_lf r else c # crlf_to_lf (d # r))"

text \<open>
  \<open>toLowerCase\<close>. The texts of this program are decoded from bytes by the single-byte
  decoder, or compared after lower-casing with words of ASCII letters: the capital letters
  that such a text can hold are A to Z, those of Latin-1 (\<open>0xC0\<close> to \<open>0xDE\<close> without the
  multiplication sign \<open>0xD7\<close>) and the four of windows-1252 with a small form, and no other
  code unit becomes an ASCII letter of one of these words.
\<close>

definition lower_unit :: "jschar \<Rightarrow> jschar" where
  "lower_unit c =
     (if 0x41 \<le> c \<and> c \<le> 0x5A then c + 0x20
      else if 0xC0 \<le> c \<and> c \<le> 0xDE \<and> c \<noteq> 0xD7 then c + 0x20
      else if c = 0x0160 then 0x0161
      else if c = 0x0152 then 0x0153
      else if c = 0x017D then 0x017E
      else if c = 0x0178 then 0xFF
      else c)"

definition js_lower :: "jsstring \<Rightarrow> jsstring" where
  "js_lower s = map lower_unit s"

section \<open>The final bold-marker removal of the HTML-sanitize conversion\<close>

text \<open>
  \<open>s.replace(/\*\*/g, "")\<close>: the matches are found left to right and do not overlap;
  each is dropped.
\<close>

abbreviation STAR :: jschar where "STAR \<equiv> 0x2A"

fun remove_star2 :: "jsstring \<Rightarrow> jsstring" where
  "remove_star2 [] = []"
| "remove_star2 [a] = [a]"
| "remove_star2 (a # b # r) =
     (if a = STAR \<and> b = STAR then remove_star2 r else a # remove_star2 (b # r))"

text \<open>
  The last statement of \<open>convertMhtmlToHtml\<close> (converter-suite.js), on the serialization
  \<open>outer\<close> of the document element, and the command-line converter's
  \<open>$.html().replace(/\*\*/g, "")\<close>.
\<close>

definition htmlOut :: "jsstring \<Rightarrow> jsstring" where
  "htmlOut outer = js ''<!DOCTYPE html>'' @ [LF] @ remove_star2 outer"

definition htmlOut_cli :: "jsstring \<Rightarrow> jsstring" where
  "htmlOut_cli outer = remove_star2 outer"

section \<open>The balanced-tag block scanner\<close>

text \<open>
  \<open>extractGrokBlocks\<close> (converter-suite.js) and \<open>extractMessageBlocks\<close>
  (mhtml2md-grok.js) are the same function. The string literals of the scanner are named;
  \<open>depth_scan\<close> is the inner \<open>while (depth > 0)\<close> loop, returning the final
  \<open>depth\<close> and \<open>k\<close>; \<open>scan_step\<close> is one pass through the body of the outer
  loop, \<open>Break\<close> for its two \<open>break\<close>s and \<open>Continue pos b\<close> for the next
  position and the block pushed, if any. Both loops are defined without any assumption
  that they end: \<open>None\<close> is a loop that does not return.
\<close>

datatype role = User | Model

definition needle :: jsstring where
  \<open>needle = js ''<div dir="ltr" class="''\<close>

definition ATTR_END :: jsstring where
  \<open>ATTR_END = js ''">''\<close>

definition DIV_OPEN :: jsstring where
  "DIV_OPEN = js ''<div''"

definition DIV_CLOSE :: jsstring where
  "DIV_CLOSE = js ''</div>''"

definition MARK_BLOCK :: jsstring where
  "MARK_BLOCK = js ''r-imh66m''"

definition MARK_USER :: jsstring where
  "MARK_USER = js ''r-1kt6imw''"

partial_function (option) depth_scan :: "jsstring \<Rightarrow> nat \<Rightarrow> nat \<Rightarrow> (nat \<times> nat) option" where
  "depth_scan fullHtml depth k =
     (if 0 < depth then
        (let nOpen = indexOf fullHtml DIV_OPEN k;
             nClose = indexOf fullHtml DIV_CLOSE k
         in case nClose of
              None \<Rightarrow> Some (depth, length fullHtml)
            | Some c \<Rightarrow>
                if (case nOpen of None \<Rightarrow> False | Some opn \<Rightarrow> opn < c)
                then depth_scan fullHtml (depth + 1) (the nOpen + 4)
                else depth_scan fullHtml (depth - 1) (c + 6))
      else Some (depth, k))"

datatype step = Break | Continue nat "(role \<times> jsstring) option"

definition scan_step :: "jsstring \<Rightarrow> nat \<Rightarrow> step option" where
  "scan_step fullHtml pos =
     (case indexOf fullHtml needle pos of
        None \<Rightarrow> Some Break
      | Some i \<Rightarrow>
          (case indexOf fullHtml ATTR_END i of
             None \<Rightarrow> Some Break
           | Some j \<Rightarrow>
               (let classAttr = slice_str fullHtml (i + length needle) j in
                if \<not> js_includes classAttr MARK_BLOCK then Some (Continue (i + 1) None)
                else
                  (let start = j + 2 in
                   case depth_scan fullHtml 1 start of
                     None \<Rightarrow> None
                   | Some (depth, k) \<Rightarrow>
                       (let fragment = (if depth = 0 then slice_str fullHtml start (k - 6)
                                        else slice_str fullHtml start k);
                            role = (if js_includes classAttr MARK_USER then User else Model)
                        in Some (Continue k (Some (role, fragment))))))))"

partial_function (option) scan_blocks ::
    "jsstring \<Rightarrow> nat \<Rightarrow> (role \<times> jsstring) list \<Rightarrow> (role \<times> jsstring) list option" where
  "scan_blocks fullHtml pos blocks =
     (case scan_step fullHtml pos of
        None \<Rightarrow> None
      | Some Break \<Rightarrow> Some blocks
      | Some (Continue pos' None) \<Rightarrow> scan_blocks fullHtml pos' blocks
      | Some (Continue pos' (Some b)) \<Rightarrow> scan_blocks fullHtml pos' (blocks @ [b]))"

definition extractGrokBlocks :: "jsstring \<Rightarrow> (role \<times> jsstring) list option" where
  "extractGrokBlocks fullHtml = scan_blocks fullHtml 0 []"

section \<open>Transfer decoding: quoted-printable and identity\<close>

abbreviation EQUALS :: jschar where "EQUALS \<equiv> 0x3D"

text \<open>\<open>text.replace(/=\r?\n/g, "")\<close>: every soft line break, found left to right, is dropped.\<close>

fun strip_soft_breaks :: "jsstring \<Rightarrow> jsstring" where
  "strip_soft_breaks [] = []"
| "strip_soft_breaks [a] = [a]"
| "strip_soft_breaks [a, b] = (if a = EQUALS \<and> b = LF then [] else a # strip_soft_breaks [b])"
| "strip_soft_breaks (a # b # c # r) =
     (if a = EQUALS \<and> b = CR \<and> c = LF then strip_soft_breaks r
      else if a = EQUALS \<and> b = LF then strip_soft_breaks (c # r)
      else a # strip_soft_breaks (b # c # r))"

text \<open>The value of a hexadecimal digit, as \<open>parseInt(_, 16)\<close> reads it; \<open>None\<close> for any
  other code unit, which is what the test \<open>/^[0-9A-Fa-f]{2}$/\<close> rejects.\<close>

definition hexval :: "jschar \<Rightarrow> nat option" where
  "hexval c =
     (if 0x30 \<le> c \<and> c \<le> 0x39 then Some (unat c - 48)
      else if 0x41 \<le> c \<and> c \<le> 0x46 then Some (unat c - 55)
      else if 0x61 \<le> c \<and> c \<le> 0x66 then Some (unat c - 87)
      else None)"

text \<open>\<open>src.charCodeAt(i) & 0xff\<close>, stored in a byte.\<close>

definition low8 :: "jschar \<Rightarrow> byte" where
  "low8 c = ucast (c AND 0xff)"

text \<open>The loop of \<open>qpDecodeToBytes\<close> over \<open>src\<close>: at an \<open>=\<close> with two hexadecimal digits
  after it (\<open>i + 2 < src.length\<close>) the byte they spell is pushed and three code units are
  consumed; otherwise the low 8 bits of the code unit are pushed.\<close>

fun qp_scan :: "jsstring \<Rightarrow> byte list" where
  "qp_scan [] = []"
| "qp_scan [a] = [low8 a]"
| "qp_scan [a, b] = [low8 a, low8 b]"
| "qp_scan (ch # h1 # h2 # r) =
     (case (hexval h1, hexval h2) of
        (Some v1, Some v2) \<Rightarrow>
          if ch = EQUALS then of_nat (16 * v1 + v2) # qp_scan r
          else low8 ch # qp_scan (h1 # h2 # r)
      | _ \<Rightarrow> low8 ch # qp_scan (h1 # h2 # r))"

definition qpDecodeToBytes :: "jsstring \<Rightarrow> byte list" where
  "qpDecodeToBytes text = qp_scan (strip_soft_breaks text)"

definition latin1ToBytes :: "jsstring \<Rightarrow> byte list" where
  "latin1ToBytes text = map low8 text"

text \<open>
  Modelled from the spec: the quoted-printable encoder of the round-trip property, which
  the repository does not contain. From the glossary (``representing non-printable/high
  bytes as \<open>=XX\<close> hex escapes and soft line wraps as a trailing \<open>=\<close>''): a byte that is a
  printable ASCII character other than \<open>=\<close> and the space stands for itself, every other
  byte is \<open>=\<close> and two upper-case hexadecimal digits, and a soft line break (\<open>=\<close> and a
  line break, CR LF when \<open>crlf\<close> and LF otherwise) is put before a token that would make
  the line longer than \<open>width\<close> code units.
\<close>

definition hex_digit :: "nat \<Rightarrow> jschar" where
  "hex_digit n = (if n < 10 then of_nat (48 + n) else of_nat (55 + n))"

definition qp_encode_byte :: "byte \<Rightarrow> jsstring" where
  "qp_encode_byte b =
     (if 33 \<le> unat b \<and> unat b \<le> 126 \<and> unat b \<noteq> 61 then [ucast b]
      else [EQUALS, hex_digit (unat b div 16), hex_digit (unat b mod 16)])"

definition soft_break :: "bool \<Rightarrow> jsstring" where
  "soft_break crlf = (if crlf then [EQUALS, CR, LF] else [EQUALS, LF])"

fun qp_wrap :: "bool \<Rightarrow> nat \<Rightarrow> nat \<Rightarrow> jsstring list \<Rightarrow> jsstring" where
  "qp_wrap crlf width col [] = []"
| "qp_wrap crlf width col (t # ts) =
     (if width < col + length t then soft_break crlf @ t @ qp_wrap crlf width (length t) ts
      else t @ qp_wrap crlf width (col + length t) ts)"

definition qp_encode :: "bool \<Rightarrow> nat \<Rightarrow> byte list \<Rightarrow> jsstring" where
  "qp_encode crlf width bytes = qp_wrap crlf width 0 (map qp_encode_byte bytes)"

section \<open>Charset decoding\<close>

text \<open>
  \<open>TextDecoder\<close> belongs to the platform, so it is a parameter: \<open>td cs bytes\<close> is the
  value of \<open>new TextDecoder(cs).decode(bytes)\<close>, \<open>None\<close> when that expression throws
  (an unknown label), and \<open>lossy bytes\<close> is
  \<open>new TextDecoder("utf-8", { fatal: false }).decode(bytes)\<close>, which does not throw.
  The hint is \<open>None\<close> for \<open>null\<close>; \<open>null\<close> and the empty string are the falsy hints.
\<close>

type_synonym text_decoder = "jsstring \<Rightarrow> byte list \<Rightarrow> jsstring option"

definition default_charsets :: "jsstring list" where
  "default_charsets = [js ''utf-8'', js ''cp949'', js ''euc-kr'', js ''windows-1252'', js ''latin1'']"

text \<open>The first loop of \<open>decodeBytes\<close>: a default charset is pushed unless \<open>tries\<close>
  includes it already.\<close>

fun push_missing :: "jsstring list \<Rightarrow> jsstring list \<Rightarrow> jsstring list" where
  "push_missing tries [] = tries"
| "push_missing tries (c # cs) =
     push_missing (if c \<in> set tries then tries else tries @ [c]) cs"

text \<open>The second loop: the first decoder that does not throw returns.\<close>

fun first_decoded :: "text_decoder \<Rightarrow> byte list \<Rightarrow> jsstring list \<Rightarrow> jsstring option" where
  "first_decoded td bytes [] = None"
| "first_decoded td bytes (cs # rest) =
     (case td cs bytes of Some s \<Rightarrow> Some s | None \<Rightarrow> first_decoded td bytes rest)"

definition decodeBytes ::
    "text_decoder \<Rightarrow> (byte list \<Rightarrow> jsstring) \<Rightarrow> byte list \<Rightarrow> jsstring option \<Rightarrow> jsstring" where
  "decodeBytes td lossy bytes charsetHint =
     (let tries = push_missing
            (case charsetHint of None \<Rightarrow> [] | Some h \<Rightarrow> if h = [] then [] else [h])
            default_charsets
      in case first_decoded td bytes tries of
           Some s \<Rightarrow> s
         | None \<Rightarrow> lossy bytes)"

section \<open>Table rendering\<close>

text \<open>
  The table branch of \<open>glmNodeToMd\<close> (converter-suite.js), \<open>tableToMarkdown\<close>
  (mhtml2md-grok.js) and \<open>tableToMd\<close> with the \<open>\n\n\<close> its caller appends: the three
  compute the same text. The DOM queries are the platform's: the input \<open>trs\<close> holds, for
  each \<open>tr\<close> element found in the table, the \<open>textContent\<close> of each \<open>th\<close> or \<open>td\<close>
  element found in it.
\<close>

abbreviation PIPE :: jschar where "PIPE \<equiv> 0x7C"
abbreviation BACKSLASH :: jschar where "BACKSLASH \<equiv> 0x5C"
abbreviation NBSP :: jschar where "NBSP \<equiv> 0xA0"

text \<open>\<open>s.replace(/\s+/g, " ")\<close>: each maximal run of white space becomes one space.\<close>

function collapse_ws :: "jsstring \<Rightarrow> jsstring" where
  "collapse_ws [] = []"
| "collapse_ws (c # r) =
     (if is_space c then SP # collapse_ws (dropWhile is_space r) else c # collapse_ws r)"
  by pat_completeness auto
termination
  by (relation "measure length") (auto simp: less_Suc_eq_le length_dropWhile_le)

text \<open>\<open>s.replace(/\|/g, "\\|")\<close>.\<close>

fun escape_pipes :: "jsstring \<Rightarrow> jsstring" where
  "escape_pipes [] = []"
| "escape_pipes (c # r) =
     (if c = PIPE then BACKSLASH # PIPE # escape_pipes r else c # escape_pipes r)"

definition normalizeText :: "jsstring \<Rightarrow> jsstring" where
  "normalizeText t = js_trim (collapse_ws (map (\<lambda>c. if c = NBSP then SP else c) t))"

definition cell_md :: "jsstring \<Rightarrow> jsstring" where
  "cell_md t = escape_pipes (normalizeText t)"

text \<open>
  The text of a cell in the words of the specification. White space collapsed: the words
  of the text, its maximal runs of code units that are not white space, joined by single
  spaces. Pipes escaped: a backslash stands before every pipe.
\<close>

function ws_words :: "jsstring \<Rightarrow> jsstring list" where
  "ws_words s =
     (case dropWhile is_space s of
        [] \<Rightarrow> []
      | c # r \<Rightarrow> (c # takeWhile (\<lambda>x. \<not> is_space x) r) #
                 ws_words (dropWhile (\<lambda>x. \<not> is_space x) r))"
  by pat_completeness auto
termination
proof (relation "measure length")
  fix s c r
  assume "dropWhile is_space s = c # r"
  then have "length (c # r) \<le> length s"
    using length_dropWhile_le [of is_space s] by simp
  moreover have "length (dropWhile (\<lambda>x. \<not> is_space x) r) \<le> length r"
    by (rule length_dropWhile_le)
  ultimately show "(dropWhile (\<lambda>x. \<not> is_space x) r, s) \<in> measure length" by simp
qed simp

declare ws_words.simps [simp del]

definition spec_cell_text :: "jsstring \<Rightarrow> jsstring" where
  "spec_cell_text t =
     concat (map (\<lambda>c. if c = PIPE then [BACKSLASH, PIPE] else [c]) (js_join [SP] (ws_words t)))"

text \<open>
  The lines of the rendered table in the words of the specification: the cells of a row,
  padded with empty cells to the width \<open>w\<close> of the table, between pipes; and the separator
  row of \<open>w\<close> cells \<open>---\<close>.
\<close>

definition spec_row_line :: "nat \<Rightarrow> jsstring list \<Rightarrow> jsstring" where
  "spec_row_line w cells =
     js ''| '' @ js_join (js '' | '') (map spec_cell_text cells @ replicate (w - length cells) []) @
     js '' |''"

definition spec_separator_line :: "nat \<Rightarrow> jsstring" where
  "spec_separator_line w = js ''| '' @ js_join (js '' | '') (replicate w (js ''---'')) @ js '' |''"

text \<open>\<open>Math.max(...rows.map((r) => r.length))\<close> for a non-empty \<open>rows\<close>.\<close>

definition max_length :: "'a list list \<Rightarrow> nat" where
  "max_length rows = fold max (map length rows) 0"

definition row_line :: "jsstring list \<Rightarrow> jsstring" where
  "row_line r = js ''| '' @ js_join (js '' | '') r @ js '' |''"

definition tableToMarkdown :: "jsstring list list \<Rightarrow> jsstring" where
  "tableToMarkdown trs =
     (let rows = map (map cell_md) (filter (\<lambda>cells. cells \<noteq> []) trs) in
      if rows = [] then []
      else
        (let width = max_length rows;
             norm = map (\<lambda>r. r @ replicate (width - length r) []) rows;
             out = [row_line (hd norm)] @ [row_line (replicate width (js ''---''))] @
                   map row_line (tl norm)
         in js_join [LF] out @ [LF, LF]))"

text \<open>
  The cells of a rendered line: a pipe delimits unless a backslash stands immediately
  before it, which is how the renderer escapes the pipes of a cell's text.
  \<open>bare_pipes esc l\<close> counts the delimiting pipes of \<open>l\<close>, where \<open>esc\<close> tells whether a
  backslash stands before \<open>l\<close>; a line of \<open>n\<close> cells has \<open>n + 1\<close> of them.
\<close>

fun bare_pipes :: "bool \<Rightarrow> jsstring \<Rightarrow> nat" where
  "bare_pipes esc [] = 0"
| "bare_pipes esc (c # r) =
     (if c = PIPE \<and> \<not> esc then 1 else 0) + bare_pipes (c = BACKSLASH) r"

section \<open>The Markdown cleanup\<close>

text \<open>
  \<open>cleanGlmMarkdown\<close> (converter-suite.js); \<open>cleanMarkdown\<close> of the command-line
  converter is the same function with a line feed added to a non-empty result. Each
  \<open>replace\<close> with a regular expression is a function on strings that drops or replaces
  the matches, found left to right.
\<close>

abbreviation DOT :: jschar where "DOT \<equiv> 0x2E"

definition is_blank :: "jschar \<Rightarrow> bool" where
  "is_blank c \<longleftrightarrow> c = SP \<or> c = TAB"

definition is_digit :: "jschar \<Rightarrow> bool" where
  "is_digit c \<longleftrightarrow> 0x30 \<le> c \<and> c \<le> 0x39"

definition is_letter :: "jschar \<Rightarrow> bool" where
  "is_letter c \<longleftrightarrow> (0x41 \<le> c \<and> c \<le> 0x5A) \<or> (0x61 \<le> c \<and> c \<le> 0x7A)"

text \<open>The class \<open>[A-Za-z0-9-]\<close> of the labels of a domain name, and the word characters
  of \<open>\b\<close>.\<close>

definition is_label :: "jschar \<Rightarrow> bool" where
  "is_label c \<longleftrightarrow> is_letter c \<or> is_digit c \<or> c = 0x2D"

definition is_word :: "jschar \<Rightarrow> bool" where
  "is_word c \<longleftrightarrow> is_letter c \<or> is_digit c \<or> c = 0x5F"

text \<open>\<open>text.replace(/\r\n/g, "\n").replace(/\r/g, "\n")\<close>.\<close>

definition norm_breaks :: "jsstring \<Rightarrow> jsstring" where
  "norm_breaks s = map (\<lambda>c. if c = CR then LF else c) (crlf_to_lf s)"

text \<open>\<open>out.replace(/[ \t]+\n/g, "\n")\<close>: a run of spaces and tabs that a line feed
  follows is dropped.\<close>

function strip_blank_before_lf :: "jsstring \<Rightarrow> jsstring" where
  "strip_blank_before_lf [] = []"
| "strip_blank_before_lf (c # r) =
     (if is_blank c \<and> dropWhile is_blank r \<noteq> [] \<and> hd (dropWhile is_blank r) = LF
      then strip_blank_before_lf (dropWhile is_blank r)
      else c # strip_blank_before_lf r)"
  by pat_completeness auto
termination
  by (relation "measure length") (auto simp: less_Suc_eq_le length_dropWhile_le)

text \<open>\<open>out.replace(/\n{3,}/g, "\n\n")\<close>: a run of three or more line feeds loses line
  feeds until two are left.\<close>

fun collapse_lf :: "jsstring \<Rightarrow> jsstring" where
  "collapse_lf (a # b # c # r) =
     (if a = LF \<and> b = LF \<and> c = LF then collapse_lf (b # c # r) else a # collapse_lf (b # c # r))"
| "collapse_lf [a, b] = [a, b]"
| "collapse_lf [a] = [a]"
| "collapse_lf [] = []"

text \<open>\<open>out.split("\n")\<close>.\<close>

fun split_lf :: "jsstring \<Rightarrow> jsstring list" where
  "split_lf [] = [[]]"
| "split_lf (c # r) =
     (if c = LF then [] # split_lf r
      else (case split_lf r of l # ls \<Rightarrow> (c # l) # ls | [] \<Rightarrow> [[c]]))"

text \<open>
  The labels of a domain name from position \<open>off\<close> of \<open>s\<close> on, for the repeated group
  \<open>(?:[A-Za-z0-9-]+\.)+\<close>: the positions after the dot of each label, as far as labels
  with a dot go.
\<close>

function group_ends :: "jsstring \<Rightarrow> nat \<Rightarrow> nat list" where
  "group_ends s off =
     (let n = length (takeWhile is_label (drop off s)) in
      if 0 < n \<and> off + n < length s \<and> s ! (off + n) = DOT
      then (off + n + 1) # group_ends s (off + n + 1)
      else [])"
  by pat_completeness auto
termination
  by (relation "measure (\<lambda>(s, off). length s - off)") auto

declare group_ends.simps [simp del]

text \<open>The test \<open>/^(?:[A-Za-z0-9-]+\.)+[A-Za-z]{2,}$/\<close>: labels with dots, then two or more
  letters up to the end.\<close>

definition domain_line :: "jsstring \<Rightarrow> bool" where
  "domain_line s =
     (let qs = group_ends s 0 in
      qs \<noteq> [] \<and> 2 \<le> length (drop (last qs) s) \<and> list_all is_letter (drop (last qs) s))"

text \<open>The loop over the lines: \<open>s\<close> is the trimmed line; an empty one is kept as the empty
  line, a boilerplate phrase, a number of one to three digits and a domain name are
  dropped.\<close>

definition dropped_line :: "jsstring \<Rightarrow> bool" where
  "dropped_line s \<longleftrightarrow>
     js_lower s = js ''sources'' \<or> js_lower s = js ''thought process'' \<or>
     (1 \<le> length s \<and> length s \<le> 3 \<and> list_all is_digit s) \<or>
     domain_line s"

fun clean_lines :: "jsstring list \<Rightarrow> jsstring list" where
  "clean_lines [] = []"
| "clean_lines (line # rest) =
     (let s = js_trim line in
      if s = [] then [] # clean_lines rest
      else if dropped_line s then clean_lines rest
      else s # clean_lines rest)"

text \<open>
  \<open>out.replace(/(?<!\()\b(?:[A-Za-z0-9-]+\.)+[A-Za-z]{2,}\b(?!\))/g, "")\<close>. A match at the
  start of \<open>s\<close>, with \<open>prev\<close> the code unit before it (\<open>None\<close> at the start of the text):
  \<open>prev\<close> is not an opening parenthesis, a word boundary lies between \<open>prev\<close> and the
  first code unit, and for the largest number of labels for which it holds, the letters
  after them are two or more, end at a word boundary and no closing parenthesis follows.
  \<open>match_domain\<close> gives the length of the match.
\<close>

definition word_at :: "jschar option \<Rightarrow> bool" where
  "word_at c = (case c of None \<Rightarrow> False | Some x \<Rightarrow> is_word x)"

definition tld_end :: "jsstring \<Rightarrow> nat \<Rightarrow> nat option" where
  "tld_end s q =
     (let n = length (takeWhile is_letter (drop q s));
          after = drop (q + n) s
      in if 2 \<le> n \<and> (after = [] \<or> (\<not> is_word (hd after) \<and> hd after \<noteq> 0x29))
         then Some (q + n) else None)"

fun first_tld :: "jsstring \<Rightarrow> nat list \<Rightarrow> nat option" where
  "first_tld s [] = None"
| "first_tld s (q # qs) = (case tld_end s q of Some e \<Rightarrow> Some e | None \<Rightarrow> first_tld s qs)"

definition match_domain :: "jschar option \<Rightarrow> jsstring \<Rightarrow> nat option" where
  "match_domain prev s =
     (if prev = Some 0x28 then None
      else if s = [] \<or> word_at prev = is_word (hd s) then None
      else first_tld s (rev (group_ends s 0)))"

function strip_domains :: "jschar option \<Rightarrow> jsstring \<Rightarrow> jsstring" where
  "strip_domains prev [] = []"
| "strip_domains prev (c # r) =
     (case match_domain prev (c # r) of
        None \<Rightarrow> c # strip_domains (Some c) r
      | Some n \<Rightarrow>
          if n = 0 then c # strip_domains (Some c) r
          else strip_domains (Some ((c # r) ! (n - 1))) (drop n (c # r)))"
  by pat_completeness auto
termination
  by (relation "measure (\<lambda>(prev, s). length s)") auto

text \<open>\<open>out.replace(/[ \t]{2,}/g, " ")\<close>.\<close>

function collapse_blanks :: "jsstring \<Rightarrow> jsstring" where
  "collapse_blanks [] = []"
| "collapse_blanks (c # r) =
     (if is_blank c \<and> r \<noteq> [] \<and> is_blank (hd r) then SP # collapse_blanks (dropWhile is_blank r)
      else c # collapse_blanks r)"
  by pat_completeness auto
termination
  by (relation "measure length") (auto simp: less_Suc_eq_le length_dropWhile_le)

definition cleanGlmMarkdown :: "jsstring \<Rightarrow> jsstring" where
  "cleanGlmMarkdown text =
     (let out = collapse_lf (strip_blank_before_lf (norm_breaks text));
          lines = clean_lines (split_lf out);
          out = js_join [LF] lines;
          out = strip_domains None out;
          out = collapse_blanks out
      in js_trim (collapse_lf out))"

definition cleanMarkdown :: "jsstring \<Rightarrow> jsstring" where
  "cleanMarkdown text = (let out = cleanGlmMarkdown text in if out = [] then [] else out @ [LF])"

text \<open>A text in which no space or tab stands immediately before another.\<close>

fun no_blank_pair :: "jsstring \<Rightarrow> bool" where
  "no_blank_pair [] = True"
| "no_blank_pair [a] = True"
| "no_blank_pair (a # b # r) = (\<not> (is_blank a \<and> is_blank b) \<and> no_blank_pair (b # r))"

text \<open>
  A text on which a further cleanup has nothing to do. Its lines are such as the loop over
  the lines leaves them: empty, or without white space at either end and neither a
  boilerplate phrase, nor a number of one to three digits, nor a domain name. And the
  pattern of the domain names matches at no position of it: \<open>domain_free prev s\<close> for the
  text \<open>s\<close> that stands after the code unit \<open>prev\<close>.
\<close>

definition kept_line :: "jsstring \<Rightarrow> bool" where
  "kept_line l \<longleftrightarrow> l = [] \<or> (js_trim l = l \<and> \<not> dropped_line l)"

fun domain_free :: "jschar option \<Rightarrow> jsstring \<Rightarrow> bool" where
  "domain_free prev [] = True"
| "domain_free prev (c # r) = (match_domain prev (c # r) = None \<and> domain_free (Some c) r)"

definition settled :: "jsstring \<Rightarrow> bool" where
  "settled s \<longleftrightarrow> list_all kept_line (split_lf s) \<and> domain_free None s"

section \<open>The question/answer transcript: formatter and parser\<close>

text \<open>
  The markers of the transcript: \<open>QUESTION_MARK\<close> is the line of the two Hangul
  syllables U+C9C8 U+BB38 and a colon, \<open>ANSWER_MARK\<close> the line of U+B2F5 U+BCC0 and a
  colon.
\<close>

definition QUESTION_MARK :: jsstring where
  "QUESTION_MARK = [0xC9C8, 0xBB38, 0x3A]"

definition ANSWER_MARK :: jsstring where
  "ANSWER_MARK = [0xB2F5, 0xBCC0, 0x3A]"

definition TURN_OPEN :: jsstring where
  "TURN_OPEN = js ''[Turn ''"

definition TURN_CLOSE :: jsstring where
  "TURN_CLOSE = js '']''"

text \<open>The decimal digits of a number, as a template literal prints it.\<close>

function decimal :: "nat \<Rightarrow> jsstring" where
  "decimal n = (if n < 10 then [0x30 + of_nat n] else decimal (n div 10) @ [0x30 + of_nat (n mod 10)])"
  by pat_completeness auto
termination
  by (relation "measure id") auto

declare decimal.simps [simp del]

text \<open>
  The line \<open>[Turn n]\<close>, the lines pushed by the loop of \<open>convertMhtmlToQaTxt\<close> from
  index \<open>i\<close> on, and the text \<open>lines.join("\n") + "\n"\<close> it writes for the pairs.
\<close>

definition turn_header :: "nat \<Rightarrow> jsstring" where
  "turn_header n = TURN_OPEN @ decimal n @ TURN_CLOSE"

fun turn_lines :: "nat \<Rightarrow> (jsstring \<times> jsstring) list \<Rightarrow> jsstring list" where
  "turn_lines i [] = []"
| "turn_lines i ((q, a) # pairs) =
     [turn_header (i + 1), QUESTION_MARK, q, [], ANSWER_MARK, a, []] @
     turn_lines (i + 1) pairs"

definition formatQaText :: "(jsstring \<times> jsstring) list \<Rightarrow> jsstring" where
  "formatQaText pairs = js_join [LF] (turn_lines 0 pairs) @ [LF]"

text \<open>\<open>text.split(/\r?\n/)\<close>: a line ends at a line feed, and a carriage return
  immediately before the line feed belongs to the separator.\<close>

fun split_lines :: "jsstring \<Rightarrow> jsstring list" where
  "split_lines [] = [[]]"
| "split_lines [c] = (if c = LF then [[], []] else [[c]])"
| "split_lines (c # d # r) =
     (if c = LF then [] # split_lines (d # r)
      else if c = CR \<and> d = LF then [] # split_lines r
      else (case split_lines (d # r) of l # ls \<Rightarrow> (c # l) # ls | [] \<Rightarrow> [[c]]))"

text \<open>\<open>s.replace(/\n+$/g, "")\<close>: the line feeds at the end are dropped.\<close>

definition strip_trailing_lf :: "jsstring \<Rightarrow> jsstring" where
  "strip_trailing_lf s = rev (dropWhile (\<lambda>c. c = LF) (rev s))"

datatype qa_section = Question | Answer

record qa_state =
  pairs :: "(jsstring \<times> jsstring) list"
  questionLines :: "jsstring list"
  answerLines :: "jsstring list"
  state :: "qa_section option"

definition flush :: "qa_state \<Rightarrow> qa_state" where
  "flush s =
     (let s' = (if questionLines s \<noteq> [] \<or> answerLines s \<noteq> []
                then s\<lparr>pairs := pairs s @
                       [(strip_trailing_lf (js_join [LF] (questionLines s)),
                         strip_trailing_lf (js_join [LF] (answerLines s)))]\<rparr>
                else s)
      in s'\<lparr>questionLines := [], answerLines := []\<rparr>)"

text \<open>The body of the loop of \<open>parseQaText\<close> for one line.\<close>

definition parse_line :: "qa_state \<Rightarrow> jsstring \<Rightarrow> qa_state" where
  "parse_line s line =
     (if startsWith line TURN_OPEN \<and> endsWith line TURN_CLOSE then (flush s)\<lparr>state := None\<rparr>
      else if js_trim line = QUESTION_MARK then s\<lparr>state := Some Question\<rparr>
      else if js_trim line = ANSWER_MARK then s\<lparr>state := Some Answer\<rparr>
      else if state s = Some Question then s\<lparr>questionLines := questionLines s @ [line]\<rparr>
      else if state s = Some Answer then s\<lparr>answerLines := answerLines s @ [line]\<rparr>
      else s)"

definition parseQaText :: "jsstring \<Rightarrow> (jsstring \<times> jsstring) list" where
  "parseQaText text =
     pairs (flush (fold (\<lambda>line s. parse_line s line) (split_lines text)
                     \<lparr>pairs = [], questionLines = [], answerLines = [], state = None\<rparr>))"

text \<open>
  A line shaped like a delimiter of the transcript, and a string none of whose lines is.
\<close>

definition delimiter_line :: "jsstring \<Rightarrow> bool" where
  "delimiter_line line \<longleftrightarrow>
     (startsWith line TURN_OPEN \<and> endsWith line TURN_CLOSE) \<or>
     js_trim line = QUESTION_MARK \<or> js_trim line = ANSWER_MARK"

definition no_delimiter_line :: "jsstring \<Rightarrow> bool" where
  "no_delimiter_line s \<longleftrightarrow> list_all (\<lambda>line. \<not> delimiter_line line) (split_lines s)"

text \<open>
  The strings that the formatter and the parser carry through unchanged: no line shaped
  like a delimiter, no carriage return immediately before a line feed, and neither a line
  feed nor a carriage return at the end.
\<close>

definition round_trip_safe :: "jsstring \<Rightarrow> bool" where
  "round_trip_safe s \<longleftrightarrow>
     no_delimiter_line s \<and> \<not> sublist [CR, LF] s \<and> (s = [] \<or> (last s \<noteq> LF \<and> last s \<noteq> CR))"

section \<open>Parts, content identifiers and data URIs\<close>

text \<open>A part of the MHTML document, as \<open>parseMhtmlParts\<close> builds it; \<open>charset\<close> is
  \<open>None\<close> for \<open>null\<close>. The headers are the object that \<open>parseHeaders\<close> fills, a map
  from lower-cased names to values; the attributes of an element are an association
  list, looked up with \<open>map_of\<close>.\<close>

record part =
  headers :: "jsstring \<rightharpoonup> jsstring"
  contentType :: jsstring
  charset :: "jsstring option"
  bytes :: "byte list"

type_synonym cid_map = "jsstring \<rightharpoonup> part"

text \<open>\<open>normalizeCid\<close>: the scheme \<open>cid:\<close> is cut off, the rest is trimmed, and
  \<open>replace(/^<|>$/g, "")\<close> drops a \<open><\<close> at the start and a \<open>>\<close> at the end.\<close>

definition normalizeCid :: "jsstring \<Rightarrow> jsstring" where
  "normalizeCid v =
     (let cid = (if startsWith v (js ''cid:'') then drop 4 v else v);
          t = js_trim cid;
          u = (if t \<noteq> [] \<and> hd t = 0x3C then tl t else t)
      in if u \<noteq> [] \<and> last u = 0x3E then butlast u else u)"

text \<open>
  \<open>bytesToBase64\<close>: the loop appends \<open>String.fromCharCode\<close> of each chunk of
  \<open>0x8000\<close> bytes from index \<open>i\<close> on, and the platform's \<open>btoa\<close> encodes the result:
  three bytes give four characters of the base64 alphabet, the last group is padded
  with \<open>=\<close>.
\<close>

function from_char_chunks :: "byte list \<Rightarrow> nat \<Rightarrow> jsstring" where
  "from_char_chunks bs i =
     (if i < length bs then map ucast (take 0x8000 (drop i bs)) @ from_char_chunks bs (i + 0x8000)
      else [])"
  by pat_completeness auto
termination
  by (relation "measure (\<lambda>(bs, i). length bs - i)") auto

declare from_char_chunks.simps [simp del]

definition b64_alphabet :: jsstring where
  "b64_alphabet = js ''ABCDEFGHIJKLMNOPQRSTUVWXYZabcdefghijklmnopqrstuvwxyz0123456789+/''"

definition b64_char :: "jschar \<Rightarrow> jschar" where
  "b64_char v = b64_alphabet ! unat (v AND 63)"

fun btoa :: "jsstring \<Rightarrow> jsstring" where
  "btoa [] = []"
| "btoa [a] = [b64_char (drop_bit 2 a), b64_char (push_bit 4 (a AND 3)), EQUALS, EQUALS]"
| "btoa [a, b] =
     [b64_char (drop_bit 2 a), b64_char (push_bit 4 (a AND 3) OR drop_bit 4 b),
      b64_char (push_bit 2 (b AND 15)), EQUALS]"
| "btoa (a # b # c # r) =
     [b64_char (drop_bit 2 a), b64_char (push_bit 4 (a AND 3) OR drop_bit 4 b),
      b64_char (push_bit 2 (b AND 15) OR drop_bit 6 c), b64_char (c AND 63)] @ btoa r"

definition bytesToBase64 :: "byte list \<Rightarrow> jsstring" where
  "bytesToBase64 bs = btoa (from_char_chunks bs 0)"

definition toDataUri :: "part \<Rightarrow> jsstring" where
  "toDataUri p =
     js ''data:'' @ (if contentType p = [] then js ''application/octet-stream'' else contentType p) @
     js '';base64,'' @ bytesToBase64 (bytes p)"

section \<open>Content-id references in the HTML-sanitize conversion\<close>

text \<open>
  The document is the list of the children of the \<open>Document\<close> node; an element has its
  tag name, its attributes and its children. \<open>querySelectorAll\<close> gives the matching
  elements in document order, and the loops below change or remove one element at a time,
  which is a map over the tree.
\<close>

datatype node = Text jsstring | Element jsstring "(jsstring \<times> jsstring) list" "node list"

text \<open>
  The loop over \<open>link[href]\<close> of \<open>convertMhtmlToHtml\<close>: a \<open>link\<close> whose \<open>href\<close> begins
  with \<open>cid:\<close> is replaced by a \<open>style\<close> element when its part resolves and is
  \<open>text/css\<close>, and removed otherwise. The text of the new element is
  \<open>replaceCidUrlsInCss(decodeBytes(part.bytes, part.charset), cidMap)\<close>, here the
  parameter \<open>css\<close>.
\<close>

fun link_pass :: "(part \<Rightarrow> jsstring) \<Rightarrow> cid_map \<Rightarrow> node \<Rightarrow> node list" where
  "link_pass css cidMap (Text t) = [Text t]"
| "link_pass css cidMap (Element tag attrs kids) =
     (case (if tag = js ''link'' then map_of attrs (js ''href'') else None) of
        None \<Rightarrow> [Element tag attrs (concat (map (link_pass css cidMap) kids))]
      | Some href \<Rightarrow>
          if \<not> startsWith href (js ''cid:'')
          then [Element tag attrs (concat (map (link_pass css cidMap) kids))]
          else (case cidMap (normalizeCid href) of
                  None \<Rightarrow> []
                | Some p \<Rightarrow>
                    if contentType p = js ''text/css''
                    then [Element (js ''style'') [] [Text (css p)]]
                    else []))"

text \<open>
  The loop over \<open>src\<close>, \<open>href\<close> and \<open>poster\<close>: for one attribute name, every element
  that has the attribute with a value beginning with \<open>cid:\<close> gets the data URI of the
  part, when the map has one.
\<close>

definition rewrite_attr :: "cid_map \<Rightarrow> jsstring \<Rightarrow> (jsstring \<times> jsstring) list \<Rightarrow> (jsstring \<times> jsstring) list" where
  "rewrite_attr cidMap attr attrs =
     (case map_of attrs attr of
        None \<Rightarrow> attrs
      | Some v \<Rightarrow>
          if \<not> startsWith v (js ''cid:'') then attrs
          else (case cidMap (normalizeCid v) of
                  None \<Rightarrow> attrs
                | Some p \<Rightarrow> AList.update attr (toDataUri p) attrs))"

fun map_elements :: "((jsstring \<times> jsstring) list \<Rightarrow> (jsstring \<times> jsstring) list) \<Rightarrow> node \<Rightarrow> node" where
  "map_elements f (Text t) = Text t"
| "map_elements f (Element tag attrs kids) = Element tag (f attrs) (map (map_elements f) kids)"

definition cid_attrs :: "jsstring list" where
  "cid_attrs = [js ''src'', js ''href'', js ''poster'']"

definition attr_pass :: "cid_map \<Rightarrow> node list \<Rightarrow> node list" where
  "attr_pass cidMap doc =
     fold (\<lambda>attr d. map (map_elements (rewrite_attr cidMap attr)) d) cid_attrs doc"

definition link_pass_doc :: "(part \<Rightarrow> jsstring) \<Rightarrow> cid_map \<Rightarrow> node list \<Rightarrow> node list" where
  "link_pass_doc css cidMap doc = concat (map (link_pass css cidMap) doc)"

definition cid_rewrite :: "(part \<Rightarrow> jsstring) \<Rightarrow> cid_map \<Rightarrow> node list \<Rightarrow> node list" where
  "cid_rewrite css cidMap doc = attr_pass cidMap (link_pass_doc css cidMap doc)"

text \<open>The elements of a document in document order, each with its attributes.\<close>

fun elements :: "node \<Rightarrow> (jsstring \<times> (jsstring \<times> jsstring) list) list" where
  "elements (Text t) = []"
| "elements (Element tag attrs kids) = (tag, attrs) # concat (map elements kids)"

definition doc_elements :: "node list \<Rightarrow> (jsstring \<times> (jsstring \<times> jsstring) list) list" where
  "doc_elements doc = concat (map elements doc)"

text \<open>
  The rule of the specification for one attribute value: a value that begins with
  \<open>cid:\<close> and whose normalized key is in the map becomes the data URI of the part; any
  other value stays.
\<close>

definition cid_rule :: "cid_map \<Rightarrow> jsstring \<Rightarrow> jsstring" where
  "cid_rule cidMap v =
     (if startsWith v (js ''cid:'')
      then (case cidMap (normalizeCid v) of Some p \<Rightarrow> toDataUri p | None \<Rightarrow> v)
      else v)"

section \<open>The multipart reader\<close>

datatype mhtml_error = NoHeaderSeparator | BoundaryNotFound | InvalidCharacterError

text \<open>
  \<open>new TextDecoder("iso-8859-1").decode(bytes)\<close>, for the buffer \<open>buf\<close>: one code unit
  for each byte. The
  platform reads the label as windows-1252, whose table differs from the byte value
  between \<open>0x80\<close> and \<open>0x9F\<close>.
\<close>

definition w1252_high :: "jschar list" where
  "w1252_high =
     [0x20AC, 0x0081, 0x201A, 0x0192, 0x201E, 0x2026, 0x2020, 0x2021,
      0x02C6, 0x2030, 0x0160, 0x2039, 0x0152, 0x008D, 0x017D, 0x008F,
      0x0090, 0x2018, 0x2019, 0x201C, 0x201D, 0x2022, 0x2013, 0x2014,
      0x02DC, 0x2122, 0x0161, 0x203A, 0x0153, 0x009D, 0x017E, 0x0178]"

definition decode_single_byte :: "byte \<Rightarrow> jschar" where
  "decode_single_byte b =
     (if 0x80 \<le> b \<and> b \<le> 0x9F then w1252_high ! (unat b - 128) else ucast b)"

definition decode_latin1 :: "byte list \<Rightarrow> jsstring" where
  "decode_latin1 buf = map decode_single_byte buf"

text \<open>\<open>s.split(sep)\<close> for a string \<open>sep\<close>: the pieces between the occurrences of
  \<open>sep\<close>, found left to right; the code units of \<open>s\<close> when \<open>sep\<close> is empty.\<close>

lemma find_sub_drop_less:
  "find_sub sep s = Some i \<Longrightarrow> sep \<noteq> [] \<Longrightarrow> length s - (i + length sep) < length s"
proof (induction s arbitrary: i)
  case Nil
  then show ?case by simp
next
  case (Cons x xs)
  then show ?case by (cases sep) (auto split: if_splits)
qed

function split_str :: "'a list \<Rightarrow> 'a list \<Rightarrow> 'a list list" where
  "split_str sep s =
     (if sep = [] then map (\<lambda>c. [c]) s
      else (case find_sub sep s of
              None \<Rightarrow> [s]
            | Some i \<Rightarrow> take i s # split_str sep (drop (i + length sep) s)))"
  by pat_completeness auto
termination
  by (relation "measure (\<lambda>(sep, s). length s)") (auto simp: find_sub_drop_less)

declare split_str.simps [simp del]

text \<open>
  \<open>parseHeaders\<close>: the state of its loop is the object \<open>out\<close> and the current \<open>key\<close>
  (\<open>None\<close> for \<open>null\<close>; \<open>null\<close> and the empty string are falsy). \<open>out\<close> is a plain
  object: an assignment of a string to its property \<open>__proto__\<close> has no effect, and this
  is the only key of the loop that is not a property of \<open>out\<close> after its assignment.
\<close>

definition store :: "(jsstring \<rightharpoonup> jsstring) \<Rightarrow> jsstring \<Rightarrow> jsstring \<Rightarrow> (jsstring \<rightharpoonup> jsstring)" where
  "store out k v = (if k = js ''__proto__'' then out else out(k \<mapsto> v))"

definition parse_header_line ::
    "(jsstring \<rightharpoonup> jsstring) \<times> jsstring option \<Rightarrow> jsstring \<Rightarrow> (jsstring \<rightharpoonup> jsstring) \<times> jsstring option" where
  "parse_header_line st line =
     (let out = fst st; key = snd st in
      if js_trim line = [] then st
      else if (startsWith line [SP] \<or> startsWith line [TAB]) \<and> key \<noteq> None \<and> key \<noteq> Some []
      then (case out (the key) of
              None \<Rightarrow> (out, key)
            | Some v \<Rightarrow> (store out (the key) (v @ [SP] @ js_trim line), key))
      else (case indexOf line [0x3A] 0 of
              None \<Rightarrow> st
            | Some idx \<Rightarrow>
                (let k = js_lower (js_trim (slice_str line 0 idx))
                 in (store out k (js_trim (drop (idx + 1) line)), Some k))))"

definition parseHeaders :: "jsstring \<Rightarrow> (jsstring \<rightharpoonup> jsstring)" where
  "parseHeaders headerText =
     fst (fold (\<lambda>line st. parse_header_line st line)
            (split_str [LF] (crlf_to_lf headerText)) (Map.empty, None))"

text \<open>
  \<open>getParam\<close>: the regular expression, for a \<open>key\<close> of ASCII letters, matches at a
  position where the key stands in either case, then optional white space, \<open>=\<close>,
  optional white space, and a value: between double quotes a non-empty run of code units
  other than the quote, or else a non-empty run of code units other than \<open>;\<close> and white
  space. The leftmost match gives the value, which is trimmed. Under the flag \<open>i\<close> a
  letter of the key matches its capital and its small form and no other code unit.
\<close>

definition ascii_lower :: "jsstring \<Rightarrow> jsstring" where
  "ascii_lower s = map (\<lambda>c. if 0x41 \<le> c \<and> c \<le> 0x5A then c + 0x20 else c) s"

definition quoted_run :: "jsstring \<Rightarrow> jsstring option" where
  "quoted_run v =
     (let q = takeWhile (\<lambda>x. x \<noteq> 0x22) (tl v)
      in if v \<noteq> [] \<and> hd v = 0x22 \<and> q \<noteq> [] \<and> length q < length (tl v) then Some q else None)"

definition bare_run :: "jsstring \<Rightarrow> jsstring option" where
  "bare_run v =
     (let b = takeWhile (\<lambda>x. x \<noteq> 0x3B \<and> \<not> is_space x) v in if b \<noteq> [] then Some b else None)"

definition match_param_at :: "jsstring \<Rightarrow> jsstring \<Rightarrow> jsstring option" where
  "match_param_at key s =
     (if length key \<le> length s \<and> ascii_lower (take (length key) s) = ascii_lower key then
        (case dropWhile is_space (drop (length key) s) of
           [] \<Rightarrow> None
         | c # r \<Rightarrow>
             if c \<noteq> EQUALS then None
             else
               (let v = dropWhile is_space r
                in case quoted_run v of Some q \<Rightarrow> Some q | None \<Rightarrow> bare_run v))
      else None)"

fun find_param :: "jsstring \<Rightarrow> jsstring \<Rightarrow> jsstring option" where
  "find_param key [] = None"
| "find_param key (c # r) =
     (case match_param_at key (c # r) of
        Some v \<Rightarrow> Some v
      | None \<Rightarrow> find_param key r)"

definition getParam :: "jsstring \<Rightarrow> jsstring \<Rightarrow> jsstring option" where
  "getParam headerValue key =
     (if headerValue = [] then None else map_option js_trim (find_param key headerValue))"

text \<open>
  The platform's \<open>atob\<close> on a string without white space: one or two \<open>=\<close> at the end are
  dropped when the length is a multiple of four (\<open>strip_padding\<close>); the string is valid
  base64 unless what is left has a length of one more than a multiple of four or holds a
  code unit outside the base64 alphabet, and \<open>atob\<close> throws on a string that is not
  (\<open>None\<close>); four characters give three bytes, and the bits left over at the end are
  dropped.
\<close>

definition b64_index :: "jschar \<Rightarrow> nat option" where
  "b64_index c =
     (if 0x41 \<le> c \<and> c \<le> 0x5A then Some (unat c - 65)
      else if 0x61 \<le> c \<and> c \<le> 0x7A then Some (unat c - 71)
      else if 0x30 \<le> c \<and> c \<le> 0x39 then Some (unat c + 4)
      else if c = 0x2B then Some 62
      else if c = 0x2F then Some 63
      else None)"

fun b64_groups :: "nat list \<Rightarrow> jsstring" where
  "b64_groups (a # b # c # d # r) =
     [of_nat (a * 4 + b div 16), of_nat ((b mod 16) * 16 + c div 4), of_nat ((c mod 4) * 64 + d)] @
     b64_groups r"
| "b64_groups [a, b, c] = [of_nat (a * 4 + b div 16), of_nat ((b mod 16) * 16 + c div 4)]"
| "b64_groups [a, b] = [of_nat (a * 4 + b div 16)]"
| "b64_groups [a] = []"
| "b64_groups [] = []"

definition strip_padding :: "jsstring \<Rightarrow> jsstring" where
  "strip_padding data =
     (if length data mod 4 = 0
      then (if endsWith data [EQUALS, EQUALS] then take (length data - 2) data
            else if endsWith data [EQUALS] then take (length data - 1) data
            else data)
      else data)"

definition valid_base64 :: "jsstring \<Rightarrow> bool" where
  "valid_base64 data \<longleftrightarrow>
     length (strip_padding data) mod 4 \<noteq> 1 \<and>
     list_all (\<lambda>c. b64_index c \<noteq> None) (strip_padding data)"

definition atob :: "jsstring \<Rightarrow> jsstring option" where
  "atob data =
     (if valid_base64 data
      then Some (b64_groups (map (\<lambda>c. the (b64_index c)) (strip_padding data)))
      else None)"

text \<open>\<open>base64ToBytes\<close>: \<open>text.replace(/[\r\n\s]/g, "")\<close>, then \<open>atob\<close>, whose
  exception is not caught.\<close>

definition base64ToBytes :: "jsstring \<Rightarrow> mhtml_error + byte list" where
  "base64ToBytes text =
     (case atob (filter (\<lambda>c. \<not> is_space c) text) of
        None \<Rightarrow> Inl InvalidCharacterError
      | Some bin \<Rightarrow> Inr (map ucast bin))"

text \<open>\<open>h[name] || d\<close>, \<open>sec.replace(/^\r?\n/, "")\<close> and \<open>pBody.replace(/\r?\n$/, "")\<close>.\<close>

definition header_or :: "(jsstring \<rightharpoonup> jsstring) \<Rightarrow> jsstring \<Rightarrow> jsstring \<Rightarrow> jsstring" where
  "header_or h name d = (case h name of None \<Rightarrow> d | Some v \<Rightarrow> if v = [] then d else v)"

definition strip_leading_break :: "jsstring \<Rightarrow> jsstring" where
  "strip_leading_break s =
     (if startsWith s [CR, LF] then drop 2 s else if startsWith s [LF] then drop 1 s else s)"

definition strip_trailing_break :: "jsstring \<Rightarrow> jsstring" where
  "strip_trailing_break s =
     (if endsWith s [CR, LF] then take (length s - 2) s
      else if endsWith s [LF] then take (length s - 1) s
      else s)"

text \<open>The header/body separator of a text: \<open>\r\n\r\n\<close> if the text includes it, else
  \<open>\n\n\<close>.\<close>

definition separator_of :: "jsstring \<Rightarrow> jsstring" where
  "separator_of t = (if indexOf t [CR, LF, CR, LF] 0 \<noteq> None then [CR, LF, CR, LF] else [LF, LF])"

text \<open>The body of the loop over the sections: \<open>Inr None\<close> for a section that is skipped
  (\<open>continue\<close>), \<open>Inl\<close> when \<open>base64ToBytes\<close> throws.\<close>

definition parse_section :: "jsstring \<Rightarrow> mhtml_error + part option" where
  "parse_section sec0 =
     (let sec = strip_leading_break sec0 in
      if sec = [] \<or> startsWith sec (js ''--'') then Inr None
      else
        (let partSep = separator_of sec in
         case indexOf sec partSep 0 of
           None \<Rightarrow> Inr None
         | Some idx \<Rightarrow>
             (let pHeaders = parseHeaders (slice_str sec 0 idx);
                  pBody = strip_trailing_break (drop (idx + length partSep) sec);
                  cte = js_lower (header_or pHeaders (js ''content-transfer-encoding'') []);
                  ctype = js_lower (js_trim
                    (case split_str [0x3B]
                            (header_or pHeaders (js ''content-type'') (js ''application/octet-stream''))
                     of [] \<Rightarrow> [] | x # xs \<Rightarrow> x));
                  cs = getParam (header_or pHeaders (js ''content-type'') []) (js ''charset'')
              in case (if js_includes cte (js ''base64'') then base64ToBytes pBody
                       else if js_includes cte (js ''quoted-printable'') then Inr (qpDecodeToBytes pBody)
                       else Inr (latin1ToBytes pBody))
                 of Inl e \<Rightarrow> Inl e
                  | Inr pBytes \<Rightarrow>
                      Inr (Some \<lparr>headers = pHeaders, contentType = ctype, charset = cs,
                                 bytes = pBytes\<rparr>))))"

fun parse_sections :: "jsstring list \<Rightarrow> part list \<Rightarrow> mhtml_error + part list" where
  "parse_sections [] parts = Inr parts"
| "parse_sections (sec # rest) parts =
     (case parse_section sec of
        Inl e \<Rightarrow> Inl e
      | Inr None \<Rightarrow> parse_sections rest parts
      | Inr (Some p) \<Rightarrow> parse_sections rest (parts @ [p]))"

text \<open>The boundary of the root headers, and the sections of the body:
  \<open>bodyText.split(marker).slice(1)\<close>.\<close>

definition root_boundary :: "jsstring \<Rightarrow> nat \<Rightarrow> jsstring option" where
  "root_boundary latin1 headEnd =
     getParam (header_or (parseHeaders (slice_str latin1 0 headEnd)) (js ''content-type'') [])
       (js ''boundary'')"

definition body_sections :: "jsstring \<Rightarrow> nat \<Rightarrow> jsstring \<Rightarrow> jsstring list" where
  "body_sections latin1 headEnd boundary =
     tl (split_str (js ''--'' @ boundary) (drop (headEnd + length (separator_of latin1)) latin1))"

definition parseMhtmlParts :: "byte list \<Rightarrow> mhtml_error + part list" where
  "parseMhtmlParts buf =
     (let latin1 = decode_latin1 buf in
      case indexOf latin1 (separator_of latin1) 0 of
        None \<Rightarrow> Inl NoHeaderSeparator
      | Some headEnd \<Rightarrow>
          (case root_boundary latin1 headEnd of
             None \<Rightarrow> Inl BoundaryNotFound
           | Some boundary \<Rightarrow>
               if boundary = [] then Inl BoundaryNotFound
               else parse_sections (body_sections latin1 headEnd boundary) []))"

section \<open>The multipart reader: the conditions of its errors\<close>

text \<open>
  The conditions under which the reader fails, stated on the text that it reads. The
  text has a blank line when it holds \<open>\r\n\r\n\<close> or \<open>\n\n\<close>; the head is what stands
  before the first blank line (of the first \<open>\r\n\r\n\<close> if there is one), the body what
  stands after it.
\<close>

definition blank_line_separator :: "jsstring \<Rightarrow> bool" where
  "blank_line_separator t \<longleftrightarrow> sublist [CR, LF, CR, LF] t \<or> sublist [LF, LF] t"

definition head_text :: "jsstring \<Rightarrow> jsstring" where
  "head_text t = (case indexOf t (separator_of t) 0 of None \<Rightarrow> t | Some h \<Rightarrow> take h t)"

definition body_text :: "jsstring \<Rightarrow> jsstring" where
  "body_text t =
     (case indexOf t (separator_of t) 0 of
        None \<Rightarrow> []
      | Some h \<Rightarrow> drop (h + length (separator_of t)) t)"

definition root_content_type :: "jsstring \<Rightarrow> jsstring" where
  "root_content_type t = header_or (parseHeaders (head_text t)) (js ''content-type'') []"

text \<open>
  A parameter in a header value. \<open>param_at key s v\<close>: the text \<open>s\<close> begins with the
  letters of \<open>key\<close>, each in either case, then white space or none, \<open>=\<close>, white space or
  none, and the value \<open>v\<close>: a non-empty run of code units other than the double quote
  between two double quotes, or, where no such quoted value stands, the longest run of
  code units other than \<open>;\<close> and white space, which is not empty. \<open>first_param key s v\<close>:
  the first position of \<open>s\<close> at which a parameter stands gives the value \<open>v\<close>. Nothing
  is asked of what stands before that position.
\<close>

definition quoted_value :: "jsstring \<Rightarrow> jsstring \<Rightarrow> bool" where
  "quoted_value rest q \<longleftrightarrow> q \<noteq> [] \<and> 0x22 \<notin> set q \<and> prefix (0x22 # q @ [0x22]) rest"

definition bare_value :: "jsstring \<Rightarrow> jsstring \<Rightarrow> bool" where
  "bare_value rest b \<longleftrightarrow> b \<noteq> [] \<and> b = takeWhile (\<lambda>x. x \<noteq> 0x3B \<and> \<not> is_space x) rest"

definition param_at :: "jsstring \<Rightarrow> jsstring \<Rightarrow> jsstring \<Rightarrow> bool" where
  "param_at key s v \<longleftrightarrow>
     (\<exists>k w1 w2 rest.
        s = k @ w1 @ EQUALS # w2 @ rest \<and>
        length k = length key \<and> ascii_lower k = ascii_lower key \<and>
        list_all is_space w1 \<and> list_all is_space w2 \<and>
        (quoted_value rest v \<or> (\<not> (\<exists>q. quoted_value rest q) \<and> bare_value rest v)))"

definition first_param :: "jsstring \<Rightarrow> jsstring \<Rightarrow> jsstring \<Rightarrow> bool" where
  "first_param key s v \<longleftrightarrow>
     (\<exists>i. param_at key (drop i s) v \<and> (\<forall>j<i. \<forall>u. \<not> param_at key (drop j s) u))"

text \<open>The boundary that the \<open>Content-Type\<close> of the head names: the trimmed value of its
  first \<open>boundary\<close> parameter, when that is not empty.\<close>

definition names_boundary :: "jsstring \<Rightarrow> jsstring \<Rightarrow> bool" where
  "names_boundary t b \<longleftrightarrow>
     (\<exists>v. first_param (js ''boundary'') (root_content_type t) v \<and> b = js_trim v \<and> b \<noteq> [])"

text \<open>
  The sections of the body: what stands between the markers \<open>--boundary\<close> and after the
  last one. A section is rejected when it is read (it is not empty after its leading line
  break, does not begin with \<open>--\<close> and has a blank line), the
  \<open>Content-Transfer-Encoding\<close> of its head holds \<open>base64\<close> in either case, and its body,
  without its last line break and all white space, is not valid base64.
\<close>

definition sections_between :: "jsstring \<Rightarrow> jsstring \<Rightarrow> jsstring list" where
  "sections_between t b = tl (split_str (js ''--'' @ b) (body_text t))"

definition rejected_section :: "jsstring \<Rightarrow> bool" where
  "rejected_section sec0 \<longleftrightarrow>
     (let sec = strip_leading_break sec0 in
      sec \<noteq> [] \<and> \<not> prefix (js ''--'') sec \<and> blank_line_separator sec \<and>
      sublist (js ''base64'')
        (js_lower (header_or (parseHeaders (head_text sec)) (js ''content-transfer-encoding'') [])) \<and>
      \<not> valid_base64 (filter (\<lambda>c. \<not> is_space c) (strip_trailing_break (body_text sec))))"

section \<open>Facts about substring search\<close>

lemma find_sub_Some_iff:
  "find_sub p s = Some i \<longleftrightarrow>
     i \<le> length s \<and> prefix p (drop i s) \<and> (\<forall>j<i. \<not> prefix p (drop j s))"
proof (induction s arbitrary: i)
  case Nil
  then show ?case by auto
next
  case (Cons x xs)
  show ?case
  proof (cases "prefix p (x # xs)")
    case True
    then show ?thesis by (cases i) auto
  next
    case False
    show ?thesis
    proof (cases i)
      case 0
      with False show ?thesis by simp
    next
      case (Suc n)
      have "(\<forall>j<Suc n. \<not> prefix p (drop j (x # xs))) \<longleftrightarrow> (\<forall>j<n. \<not> prefix p (drop j xs))"
        using False by (auto simp: less_Suc_eq_0_disj)
      with Suc False Cons.IH [of n] show ?thesis by auto
    qed
  qed
qed

lemma all_le_Suc_split: "(\<forall>j\<le>Suc n. P j) \<longleftrightarrow> P 0 \<and> (\<forall>j\<le>n. P (Suc j))"
proof
  assume "\<forall>j\<le>Suc n. P j"
  then show "P 0 \<and> (\<forall>j\<le>n. P (Suc j))" by simp
next
  assume a: "P 0 \<and> (\<forall>j\<le>n. P (Suc j))"
  show "\<forall>j\<le>Suc n. P j"
  proof (intro allI impI)
    fix j assume "j \<le> Suc n"
    with a show "P j" by (cases j) auto
  qed
qed

lemma find_sub_None_iff:
  "find_sub p s = None \<longleftrightarrow> (\<forall>j\<le>length s. \<not> prefix p (drop j s))"
proof (induction s)
  case Nil
  then show ?case by auto
next
  case (Cons x xs)
  have "(\<forall>j\<le>Suc (length xs). \<not> prefix p (drop j (x # xs))) \<longleftrightarrow>
        \<not> prefix p (x # xs) \<and> (\<forall>j\<le>length xs. \<not> prefix p (drop j xs))"
    by (subst all_le_Suc_split) simp
  with Cons show ?case by auto
qed

lemma indexOf_Some_iff:
  assumes "k \<le> length s"
  shows "indexOf s p k = Some i \<longleftrightarrow>
     k \<le> i \<and> i \<le> length s \<and> prefix p (drop i s) \<and> (\<forall>j. k \<le> j \<and> j < i \<longrightarrow> \<not> prefix p (drop j s))"
proof
  assume "indexOf s p k = Some i"
  then obtain m where m: "find_sub p (drop k s) = Some m" "i = m + k"
    using assms by (auto simp: indexOf_def)
  from m(1) have a: "m \<le> length s - k" "prefix p (drop (m + k) s)"
    and b: "\<forall>j<m. \<not> prefix p (drop (j + k) s)"
    by (auto simp: find_sub_Some_iff)
  have "\<not> prefix p (drop j s)" if "k \<le> j" "j < i" for j
  proof -
    from that m(2) have "j - k < m" by arith
    with b have "\<not> prefix p (drop ((j - k) + k) s)" by blast
    with that(1) show ?thesis by simp
  qed
  with a m(2) assms show "k \<le> i \<and> i \<le> length s \<and> prefix p (drop i s) \<and>
      (\<forall>j. k \<le> j \<and> j < i \<longrightarrow> \<not> prefix p (drop j s))"
    by auto
next
  assume r: "k \<le> i \<and> i \<le> length s \<and> prefix p (drop i s) \<and>
      (\<forall>j. k \<le> j \<and> j < i \<longrightarrow> \<not> prefix p (drop j s))"
  then have "find_sub p (drop k s) = Some (i - k)"
    by (auto simp: find_sub_Some_iff)
  with r assms show "indexOf s p k = Some i"
    by (simp add: indexOf_def)
qed

lemma indexOf_None_iff:
  assumes "k \<le> length s"
  shows "indexOf s p k = None \<longleftrightarrow> (\<forall>j. k \<le> j \<and> j \<le> length s \<longrightarrow> \<not> prefix p (drop j s))"
proof -
  have "(\<forall>j\<le>length s - k. \<not> prefix p (drop (j + k) s)) \<longleftrightarrow>
        (\<forall>j. k \<le> j \<and> j \<le> length s \<longrightarrow> \<not> prefix p (drop j s))"
  proof (intro iffI allI impI)
    fix j assume a: "\<forall>j\<le>length s - k. \<not> prefix p (drop (j + k) s)" and j: "k \<le> j \<and> j \<le> length s"
    then have "j - k \<le> length s - k" by arith
    with a have "\<not> prefix p (drop ((j - k) + k) s)" by blast
    with j show "\<not> prefix p (drop j s)" by simp
  next
    fix j assume a: "\<forall>j. k \<le> j \<and> j \<le> length s \<longrightarrow> \<not> prefix p (drop j s)" and j: "j \<le> length s - k"
    with assms have "k \<le> j + k \<and> j + k \<le> length s" by arith
    with a show "\<not> prefix p (drop (j + k) s)" by blast
  qed
  with assms show ?thesis
    by (simp add: indexOf_def find_sub_None_iff)
qed

lemma js_includes_iff_sublist: "js_includes s p \<longleftrightarrow> sublist p s"
proof
  assume "js_includes s p"
  then obtain i where "indexOf s p 0 = Some i" by (auto simp: js_includes_def)
  then have "prefix p (drop i s)" by (simp add: indexOf_Some_iff)
  then obtain t where "drop i s = p @ t" by (auto simp: prefix_def)
  then have "s = take i s @ p @ t" by (metis append_take_drop_id)
  then show "sublist p s" unfolding sublist_def by blast
next
  assume "sublist p s"
  then obtain a b where s: "s = a @ p @ b" by (auto simp: sublist_def)
  then have "prefix p (drop (length a) s)" "length a \<le> length s" by auto
  then have "indexOf s p 0 \<noteq> None" by (auto simp: indexOf_None_iff)
  then show "js_includes s p" by (simp add: js_includes_def)
qed

lemma sublist_dropD: "sublist p (drop j u) \<Longrightarrow> sublist p u"
proof -
  assume "sublist p (drop j u)"
  then obtain ps ss where e: "drop j u = ps @ p @ ss" by (auto simp: sublist_def)
  have "take j u @ drop j u = u" by simp
  with e have "u = (take j u @ ps) @ p @ ss" by simp
  then show ?thesis unfolding sublist_def by blast
qed

lemma prefix_drop_sublist: "prefix p (drop j u) \<Longrightarrow> sublist p u"
  by (blast intro: prefix_imp_sublist sublist_dropD)

lemma no_cross:
  assumes p: "p = c # p'" "c \<notin> set p'" and u: "\<not> sublist p u" and j: "j < length u"
  shows "\<not> prefix p (drop j (u @ c # t))"
proof
  assume "prefix p (drop j (u @ c # t))"
  with j have "prefix p (drop j u @ c # t)" by simp
  then consider "prefix p (drop j u)" | us where "p = drop j u @ us" "prefix us (c # t)"
    by (auto simp: prefix_append)
  then show False
  proof cases
    case 1
    then have "sublist p u" by (rule prefix_drop_sublist)
    with u show False by simp
  next
    case 2
    from j obtain x xs where d: "drop j u = x # xs" by (cases "drop j u") auto
    show False
    proof (cases us)
      case Nil
      with 2 have "prefix p (drop j u)" by simp
      then have "sublist p u" by (rule prefix_drop_sublist)
      with u show False by simp
    next
      case (Cons y ys)
      with 2(2) have "y = c" by simp
      with 2(1) d Cons p show False by auto
    qed
  qed
qed

lemma find_sub_at:
  assumes "p = c # p'" "c \<notin> set p'" "\<not> sublist p u"
  shows "find_sub p (u @ p @ t) = Some (length u)"
proof -
  have "\<not> prefix p (drop j (u @ p @ t))" if "j < length u" for j
    using no_cross [OF assms that, of "p' @ t"] assms(1) by simp
  then show ?thesis by (simp add: find_sub_Some_iff)
qed

lemma find_sub_ge:
  assumes "p = c # p'" "c \<notin> set p'" "\<not> sublist p u" "find_sub p (u @ c # t) = Some n"
  shows "length u \<le> n"
proof (rule ccontr)
  assume "\<not> length u \<le> n"
  then have "n < length u" by simp
  from no_cross [OF assms(1-3) this] assms(4) show False
    by (simp add: find_sub_Some_iff)
qed

lemma no_sub_append:
  assumes "p = c # p'" "c \<notin> set p'" "\<not> sublist p u" "\<not> sublist p (c # v)"
  shows "\<not> sublist p (u @ c # v)"
proof
  assume "sublist p (u @ c # v)"
  then obtain i where i: "find_sub p (u @ c # v) = Some i"
    using js_includes_iff_sublist [of "u @ c # v" p] by (auto simp: js_includes_def indexOf_def)
  from find_sub_ge [OF assms(1-3) i] have "length u \<le> i" .
  moreover from i have "prefix p (drop i (u @ c # v))" by (simp add: find_sub_Some_iff)
  ultimately have "prefix p (drop (i - length u) (c # v))" by simp
  then have "sublist p (c # v)" by (rule prefix_drop_sublist)
  with assms(4) show False by simp
qed

lemma indexOf_append:
  "k \<le> length s \<Longrightarrow> indexOf (w @ s) p (length w + k) = map_option (\<lambda>i. i + length w) (indexOf s p k)"
  by (simp add: indexOf_def option.map_comp comp_def add.commute add.left_commute)

lemma indexOf_append0:
  "indexOf (w @ s) p (length w) = map_option (\<lambda>i. i + length w) (find_sub p s)"
  using indexOf_append [of 0 s w p] by (simp add: indexOf_def)

section \<open>Trimming: basic facts\<close>

lemma is_space_LF: "is_space LF"
  by (simp add: is_space_def)

lemma set_js_trim: "set (js_trim s) \<subseteq> set s"
proof -
  have "set (js_trim s) \<subseteq> set (dropWhile is_space s)"
    unfolding js_trim_def using set_dropWhileD by fastforce
  also have "\<dots> \<subseteq> set s" using set_dropWhileD by fastforce
  finally show ?thesis .
qed

lemma last_dropWhile: "dropWhile P xs \<noteq> [] \<Longrightarrow> last (dropWhile P xs) = last xs"
  by (induction xs) (auto split: if_splits)

lemma js_trim_ends:
  assumes "js_trim s \<noteq> []"
  shows "\<not> is_space (hd (js_trim s))" and "\<not> is_space (last (js_trim s))"
proof -
  define u where "u = dropWhile is_space s"
  define v where "v = dropWhile is_space (rev u)"
  have t: "js_trim s = rev v" by (simp add: js_trim_def u_def v_def)
  with assms have v: "v \<noteq> []" by simp
  then have u: "u \<noteq> []" by (auto simp: v_def)
  have "last v = last (rev u)" using v unfolding v_def by (rule last_dropWhile)
  also have "\<dots> = hd u" using u by (simp add: last_rev)
  finally have "hd (rev v) = hd u" using v by (simp add: hd_rev)
  moreover have "\<not> is_space (hd u)" using u unfolding u_def by (rule hd_dropWhile)
  ultimately show "\<not> is_space (hd (js_trim s))" by (simp add: t)
  have "\<not> is_space (hd v)" using v unfolding v_def by (rule hd_dropWhile)
  then show "\<not> is_space (last (js_trim s))" using v by (simp add: t last_rev)
qed

lemma js_trim_id:
  assumes "s = [] \<or> (\<not> is_space (hd s) \<and> \<not> is_space (last s))"
  shows "js_trim s = s"
proof (cases s)
  case Nil
  then show ?thesis by (simp add: js_trim_def)
next
  case (Cons c r)
  with assms have a: "\<not> is_space c" and b: "\<not> is_space (last s)" by auto
  from a Cons have 1: "dropWhile is_space s = s" by simp
  from b Cons have "\<not> is_space (hd (rev s))" unfolding hd_rev by simp
  then have "dropWhile is_space (rev s) = rev s"
    using Cons by (cases "rev s") auto
  with 1 show ?thesis by (simp add: js_trim_def)
qed

lemma js_trim_idem: "js_trim (js_trim s) = js_trim s"
  by (rule js_trim_id) (use js_trim_ends [of s] in blast)

lemma js_trim_fixed_iff:
  "js_trim s = s \<longleftrightarrow> s = [] \<or> (\<not> is_space (hd s) \<and> \<not> is_space (last s))"
  using js_trim_id [of s] js_trim_ends [of s] by auto

lemma js_trim_sublist: "sublist (js_trim s) s"
proof -
  have "suffix (dropWhile is_space s) s" by (rule suffix_dropWhile)
  moreover have "prefix (js_trim s) (dropWhile is_space s)"
  proof -
    have "suffix (dropWhile is_space (rev (dropWhile is_space s))) (rev (dropWhile is_space s))"
      by (rule suffix_dropWhile)
    then show ?thesis unfolding js_trim_def suffix_to_prefix by simp
  qed
  ultimately show ?thesis
    by (meson prefix_imp_sublist suffix_imp_sublist sublist_order.order.trans)
qed

lemma js_trim_Nil: "js_trim [] = []"
  by (simp add: js_trim_def)

lemma js_join_Cons: "xs \<noteq> [] \<Longrightarrow> js_join sep (x # xs) = x @ sep @ js_join sep xs"
  by (cases xs) auto

lemma js_join_snoc: "xs \<noteq> [] \<Longrightarrow> js_join sep (xs @ [y]) = js_join sep xs @ sep @ y"
  by (induction sep xs rule: js_join.induct) auto

lemma set_js_join: "set (js_join sep xs) \<subseteq> set sep \<union> \<Union> (set ` set xs)"
  by (induction sep xs rule: js_join.induct) auto

section \<open>No bold marker survives the final removal\<close>

lemma remove_star2_other: "y \<noteq> STAR \<Longrightarrow> remove_star2 (y # r) = y # remove_star2 r"
  by (cases r) auto

lemma remove_star2_no_pair:
  "remove_star2 s = u @ a # b # v \<Longrightarrow> \<not> (a = STAR \<and> b = STAR)"
proof (induction s arbitrary: u rule: remove_star2.induct)
  case 1
  then show ?case by simp
next
  case (2 x)
  then show ?case by (cases u) auto
next
  case (3 x y r)
  show ?case
  proof (cases "x = STAR \<and> y = STAR")
    case True
    with 3 show ?thesis by simp
  next
    case False
    with "3.prems" have e: "x # remove_star2 (y # r) = u @ a # b # v" by simp
    show ?thesis
    proof (cases u)
      case Nil
      with e have xa: "x = a" and yb: "remove_star2 (y # r) = b # v" by auto
      show ?thesis
      proof (cases "x = STAR")
        case True
        with False have "y \<noteq> STAR" by simp
        with yb have "b = y" by (simp add: remove_star2_other)
        with \<open>y \<noteq> STAR\<close> show ?thesis by simp
      next
        case False
        with xa show ?thesis by simp
      qed
    next
      case (Cons c u')
      with e have "remove_star2 (y # r) = u' @ a # b # v" by simp
      with "3.IH"(2) False show ?thesis by blast
    qed
  qed
qed

lemma remove_star2_no_sublist: "\<not> sublist [STAR, STAR] (remove_star2 s)"
  unfolding sublist_def using remove_star2_no_pair by fastforce

lemma no_star2_append:
  "STAR \<notin> set pre \<Longrightarrow> \<not> sublist [STAR, STAR] t \<Longrightarrow> \<not> sublist [STAR, STAR] (pre @ t)"
  by (induction pre) (auto simp: sublist_Cons_right)

lemma js_doctype:
  "js ''<!DOCTYPE html>'' =
     [0x3C, 0x21, 0x44, 0x4F, 0x43, 0x54, 0x59, 0x50, 0x45, 0x20, 0x68, 0x74, 0x6D, 0x6C, 0x3E]"
  by (simp add: js_def)

text \<open>
  C9. The text written by the HTML-sanitize conversion, in the browser converter and in the
  command-line converter, contains no occurrence of the two-character sequence \<open>**\<close>,
  whatever the serialized document was.
\<close>

theorem C9_no_double_star:
  "\<not> js_includes (htmlOut outer) (js ''**'') \<and> \<not> js_includes (htmlOut_cli outer) (js ''**'')"
proof -
  have p: "js ''**'' = [STAR, STAR]" by (simp add: js_def)
  have d: "STAR \<notin> set (js ''<!DOCTYPE html>'' @ [LF])"
    unfolding js_doctype by simp
  have "\<not> sublist [STAR, STAR] ((js ''<!DOCTYPE html>'' @ [LF]) @ remove_star2 outer)"
    using d remove_star2_no_sublist by (rule no_star2_append)
  then have 1: "\<not> sublist (js ''**'') (htmlOut outer)"
    unfolding p htmlOut_def by simp
  have 2: "\<not> sublist (js ''**'') (htmlOut_cli outer)"
    unfolding p htmlOut_cli_def by (rule remove_star2_no_sublist)
  from 1 2 show ?thesis
    unfolding js_includes_iff_sublist by (rule conjI)
qed

section \<open>The scanner: termination and the nested container\<close>

lemma needle_eq: "needle = [0x3C, 0x64, 0x69, 0x76, 0x20, 0x64, 0x69, 0x72, 0x3D, 0x22, 0x6C, 0x74, 0x72, 0x22,
   0x20, 0x63, 0x6C, 0x61, 0x73, 0x73, 0x3D, 0x22]"
  by (simp add: needle_def js_def)
lemma ATTR_END_eq: "ATTR_END = [0x22, 0x3E]" by (simp add: ATTR_END_def js_def)
lemma DIV_OPEN_eq: "DIV_OPEN = [0x3C, 0x64, 0x69, 0x76]" by (simp add: DIV_OPEN_def js_def)
lemma DIV_CLOSE_eq: "DIV_CLOSE = [0x3C, 0x2F, 0x64, 0x69, 0x76, 0x3E]" by (simp add: DIV_CLOSE_def js_def)

lemma MARK_BLOCK_eq: "MARK_BLOCK = [0x72, 0x2D, 0x69, 0x6D, 0x68, 0x36, 0x36, 0x6D]"
  by (simp add: MARK_BLOCK_def js_def)

lemma MARK_USER_eq: "MARK_USER = [0x72, 0x2D, 0x31, 0x6B, 0x74, 0x36, 0x69, 0x6D, 0x77]"
  by (simp add: MARK_USER_def js_def)

lemma indexOf_bounds:
  assumes "k \<le> length s" "indexOf s p k = Some i"
  shows "k \<le> i" "i + length p \<le> length s"
proof -
  from assms have a: "k \<le> i" "i \<le> length s" "prefix p (drop i s)"
    by (simp_all add: indexOf_Some_iff)
  show "k \<le> i" by fact
  from a(3) have "length p \<le> length (drop i s)" by (rule prefix_length_le)
  with a(2) show "i + length p \<le> length s" by simp
qed

lemma depth_scan_total:
  "k \<le> length s \<Longrightarrow> \<exists>d k'. depth_scan s depth k = Some (d, k') \<and> k \<le> k' \<and> k' \<le> length s"
proof (induction "length s - k" arbitrary: depth k rule: less_induct)
  case less
  show ?case
  proof (cases "0 < depth")
    case False
    with less.prems show ?thesis by (subst depth_scan.simps) simp
  next
    case True
    show ?thesis
    proof (cases "indexOf s DIV_CLOSE k")
      case None
      with True less.prems show ?thesis by (subst depth_scan.simps) simp
    next
      case (Some c)
      from indexOf_bounds [OF less.prems Some] have c: "k \<le> c" "c + 6 \<le> length s"
        by (simp_all add: DIV_CLOSE_eq)
      show ?thesis
      proof (cases "case indexOf s DIV_OPEN k of None \<Rightarrow> False | Some opn \<Rightarrow> opn < c")
        case True
        then obtain opn where o: "indexOf s DIV_OPEN k = Some opn" "opn < c"
          by (auto split: option.splits)
        from indexOf_bounds [OF less.prems o(1)] have b: "k \<le> opn" "opn + 4 \<le> length s"
          by (simp_all add: DIV_OPEN_eq)
        then have "length s - (opn + 4) < length s - k" by arith
        from less.hyps [OF this b(2), of "depth + 1"]
        obtain d k' where "depth_scan s (depth + 1) (opn + 4) = Some (d, k')" "opn + 4 \<le> k'" "k' \<le> length s"
          by blast
        with \<open>0 < depth\<close> Some o b show ?thesis
          by (subst depth_scan.simps) simp
      next
        case False
        from c have "length s - (c + 6) < length s - k" by arith
        from less.hyps [OF this c(2), of "depth - 1"]
        obtain d k' where "depth_scan s (depth - 1) (c + 6) = Some (d, k')" "c + 6 \<le> k'" "k' \<le> length s"
          by blast
        with \<open>0 < depth\<close> Some False c show ?thesis
          by (subst depth_scan.simps) simp
      qed
    qed
  qed
qed

lemma scan_step_total:
  assumes "pos \<le> length s"
  shows "\<exists>r. scan_step s pos = Some r \<and> (\<forall>pos' b. r = Continue pos' b \<longrightarrow> pos < pos' \<and> pos' \<le> length s)"
proof (cases "indexOf s needle pos")
  case None
  then show ?thesis by (simp add: scan_step_def)
next
  case (Some i)
  from indexOf_bounds [OF assms Some] have i: "pos \<le> i" "i + 22 \<le> length s"
    by (simp_all add: needle_eq)
  then have il: "i \<le> length s" by simp
  show ?thesis
  proof (cases "indexOf s ATTR_END i")
    case None
    with Some show ?thesis by (simp add: scan_step_def)
  next
    case j: (Some j)
    from indexOf_bounds [OF il j] have jb: "i \<le> j" "j + 2 \<le> length s"
      by (simp_all add: ATTR_END_eq)
    show ?thesis
    proof (cases "js_includes (slice_str s (i + length needle) j) MARK_BLOCK")
      case False
      with Some j i show ?thesis by (simp add: scan_step_def)
    next
      case True
      from depth_scan_total [OF jb(2), of 1]
      obtain d k' where "depth_scan s 1 (j + 2) = Some (d, k')" "j + 2 \<le> k'" "k' \<le> length s"
        by blast
      with Some j i jb True show ?thesis by (simp add: scan_step_def)
    qed
  qed
qed

lemma DIV_OPEN_shape: "DIV_OPEN = 0x3C # [0x64, 0x69, 0x76]" "0x3C \<notin> set [0x64, 0x69, 0x76 :: jschar]"
  by (simp_all add: DIV_OPEN_eq)

lemma DIV_CLOSE_shape: "DIV_CLOSE = 0x3C # [0x2F, 0x64, 0x69, 0x76, 0x3E]"
    "0x3C \<notin> set [0x2F, 0x64, 0x69, 0x76, 0x3E :: jschar]"
  by (simp_all add: DIV_CLOSE_eq)

lemma needle_shape: "needle = 0x3C # tl needle" "0x3C \<notin> set (tl needle)"
  by (simp_all add: needle_eq)

lemma ATTR_END_shape: "ATTR_END = 0x22 # [0x3E]" "0x22 \<notin> set [0x3E :: jschar]"
  by (simp_all add: ATTR_END_eq)

lemma no_close_in_open: "\<not> sublist DIV_CLOSE b \<Longrightarrow> \<not> sublist DIV_CLOSE (DIV_OPEN @ b)"
  by (simp add: DIV_OPEN_eq DIV_CLOSE_eq sublist_Cons_right)

lemma no_open_in_close: "\<not> sublist DIV_OPEN b \<Longrightarrow> \<not> sublist DIV_OPEN (DIV_CLOSE @ b)"
  by (simp add: DIV_OPEN_eq DIV_CLOSE_eq sublist_Cons_right)

lemma no_end_in_needle:
  assumes "\<not> sublist ATTR_END cls" "cls = [] \<or> hd cls \<noteq> 0x3E"
  shows "\<not> sublist ATTR_END (needle @ cls)"
proof (cases cls)
  case Nil
  then show ?thesis by (simp add: needle_eq ATTR_END_eq sublist_Cons_right)
next
  case (Cons x xs)
  with assms show ?thesis by (simp add: needle_eq ATTR_END_eq sublist_Cons_right)
qed

lemma depth_scan_zero: "depth_scan s 0 k = Some (0, k)"
  by (subst depth_scan.simps) simp

lemma depth_scan_close:
  assumes "0 < depth" "indexOf s DIV_CLOSE k = Some c"
    and "\<not> (case indexOf s DIV_OPEN k of None \<Rightarrow> False | Some opn \<Rightarrow> opn < c)"
  shows "depth_scan s depth k = depth_scan s (depth - 1) (c + 6)"
  using assms by (subst depth_scan.simps) simp

lemma depth_scan_open:
  assumes "0 < depth" "indexOf s DIV_CLOSE k = Some c" "indexOf s DIV_OPEN k = Some opn" "opn < c"
  shows "depth_scan s depth k = depth_scan s (depth + 1) (opn + 4)"
  using assms by (subst depth_scan.simps) simp

text \<open>The depth scan over one nested container.\<close>

lemma depth_scan_nested:
  assumes a: "\<not> sublist DIV_OPEN a" "\<not> sublist DIV_CLOSE a"
      and b: "\<not> sublist DIV_OPEN b" "\<not> sublist DIV_CLOSE b"
      and c: "\<not> sublist DIV_OPEN c" "\<not> sublist DIV_CLOSE c"
  shows "depth_scan (w @ a @ DIV_OPEN @ b @ DIV_CLOSE @ c @ DIV_CLOSE @ rest) 1 (length w) =
         Some (0, length w + length a + 4 + length b + 6 + length c + 6)"
proof -
  define s3 where "s3 = c @ DIV_CLOSE @ rest"
  define s2 where "s2 = b @ DIV_CLOSE @ s3"
  define s1 where "s1 = a @ DIV_OPEN @ s2"
  define w2 where "w2 = w @ a @ DIV_OPEN"
  define w3 where "w3 = w2 @ b @ DIV_CLOSE"
  define w4 where "w4 = w3 @ c @ DIV_CLOSE"
  define s where "s = w @ s1"
  have s: "s = w2 @ s2" "s = w3 @ s3" "s = w4 @ rest"
    by (simp_all add: s_def s1_def s2_def s3_def w2_def w3_def w4_def)
  have lens: "length w2 = length w + length a + 4" "length w3 = length w2 + length b + 6"
      "length w4 = length w3 + length c + 6"
    by (simp_all add: w2_def w3_def w4_def DIV_OPEN_eq DIV_CLOSE_eq)
  \<comment> \<open>first iteration: the nested opening tag comes before any closing tag\<close>
  have o1: "find_sub DIV_OPEN s1 = Some (length a)"
    unfolding s1_def using DIV_OPEN_shape a(1) by (rule find_sub_at)
  have "\<not> sublist DIV_CLOSE (0x3C # ([0x64, 0x69, 0x76] @ b))"
    using no_close_in_open [OF b(2)] by (simp add: DIV_OPEN_eq)
  with DIV_CLOSE_shape a(2) have "\<not> sublist DIV_CLOSE (a @ 0x3C # ([0x64, 0x69, 0x76] @ b))"
    by (rule no_sub_append)
  then have nc: "\<not> sublist DIV_CLOSE ((a @ DIV_OPEN) @ b)" by (simp add: DIV_OPEN_eq)
  have "find_sub DIV_CLOSE (((a @ DIV_OPEN) @ b) @ DIV_CLOSE @ s3) = Some (length ((a @ DIV_OPEN) @ b))"
    using DIV_CLOSE_shape nc by (rule find_sub_at)
  then have c1: "find_sub DIV_CLOSE s1 = Some (length a + 4 + length b)"
    by (simp add: s1_def s2_def DIV_OPEN_eq)
  have i1: "indexOf s DIV_OPEN (length w) = Some (length a + length w)"
      "indexOf s DIV_CLOSE (length w) = Some (length a + 4 + length b + length w)"
    unfolding s_def by (simp_all add: indexOf_append0 o1 c1)
  \<comment> \<open>second iteration: the nested closing tag\<close>
  have c2: "find_sub DIV_CLOSE s2 = Some (length b)"
    unfolding s2_def using DIV_CLOSE_shape b(2) by (rule find_sub_at)
  have o2: "length b \<le> n" if "find_sub DIV_OPEN s2 = Some n" for n
    using DIV_OPEN_shape b(1) that unfolding s2_def DIV_CLOSE_eq append_Cons by (rule find_sub_ge)
  have i2: "indexOf s DIV_CLOSE (length w2) = Some (length b + length w2)"
    unfolding s(1) by (simp add: indexOf_append0 c2)
  have j2: "\<not> (case indexOf s DIV_OPEN (length w2) of None \<Rightarrow> False | Some opn \<Rightarrow> opn < length b + length w2)"
    unfolding s(1) using o2 by (auto simp: indexOf_append0 split: option.splits)
  \<comment> \<open>third iteration: the closing tag of the container itself\<close>
  have c3: "find_sub DIV_CLOSE s3 = Some (length c)"
    unfolding s3_def using DIV_CLOSE_shape c(2) by (rule find_sub_at)
  have o3: "length c \<le> n" if "find_sub DIV_OPEN s3 = Some n" for n
    using DIV_OPEN_shape c(1) that unfolding s3_def DIV_CLOSE_eq append_Cons by (rule find_sub_ge)
  have i3: "indexOf s DIV_CLOSE (length w3) = Some (length c + length w3)"
    unfolding s(2) by (simp add: indexOf_append0 c3)
  have j3: "\<not> (case indexOf s DIV_OPEN (length w3) of None \<Rightarrow> False | Some opn \<Rightarrow> opn < length c + length w3)"
    unfolding s(2) using o3 by (auto simp: indexOf_append0 split: option.splits)
  have "depth_scan s 1 (length w) = depth_scan s (1 + 1) (length a + length w + 4)"
  proof (rule depth_scan_open [OF _ i1(2) i1(1)])
    show "0 < (1::nat)" by simp
    show "length a + length w < length a + 4 + length b + length w" by arith
  qed
  also have "length a + length w + 4 = length w2" by (simp add: lens)
  also have "depth_scan s (1 + 1) (length w2) = depth_scan s (1 + 1 - 1) (length b + length w2 + 6)"
    using _ i2 j2 by (rule depth_scan_close) simp
  also have "length b + length w2 + 6 = length w3" by (simp add: lens)
  also have "depth_scan s (1 + 1 - 1) (length w3) = depth_scan s (1 + 1 - 1 - 1) (length c + length w3 + 6)"
    using _ i3 j3 by (rule depth_scan_close) simp
  also have "length c + length w3 + 6 = length w4" by (simp add: lens)
  finally have "depth_scan s 1 (length w) = Some (0, length w4)"
    by (simp add: depth_scan_zero)
  then show ?thesis
    by (simp add: s_def s1_def s2_def s3_def lens)
qed

lemma scan_blocks_extends:
  "pos \<le> length s \<Longrightarrow> \<exists>bs. scan_blocks s pos blocks = Some (blocks @ bs)"
proof (induction "length s - pos" arbitrary: pos blocks rule: less_induct)
  case less
  from scan_step_total [OF less.prems] obtain r where
    r: "scan_step s pos = Some r" "\<And>pos' b. r = Continue pos' b \<Longrightarrow> pos < pos' \<and> pos' \<le> length s"
    by blast
  show ?case
  proof (cases r)
    case Break
    with r(1) show ?thesis by (subst scan_blocks.simps) simp
  next
    case (Continue pos' b)
    from r(2) [OF this] have p: "pos < pos'" "pos' \<le> length s" by simp_all
    then have "length s - pos' < length s - pos" by arith
    from less.hyps [OF this p(2)] have ih: "\<exists>bs. scan_blocks s pos' bl = Some (bl @ bs)" for bl
      by blast
    show ?thesis
    proof (cases b)
      case None
      with r(1) Continue ih [of blocks] show ?thesis
        by (subst scan_blocks.simps) simp
    next
      case (Some blk)
      from ih [of "blocks @ [blk]"] obtain bs where "scan_blocks s pos' (blocks @ [blk]) = Some (blocks @ blk # bs)"
        by auto
      with r(1) Continue Some show ?thesis
        by (subst scan_blocks.simps) simp
    qed
  qed
qed

lemma js_includes_Nil: "p \<noteq> [] \<Longrightarrow> \<not> js_includes [] p"
  by (simp add: js_includes_def indexOf_def)

lemma scan_step_nested:
  assumes pre: "\<not> sublist needle pre"
      and cls: "js_includes cls MARK_BLOCK" "\<not> sublist ATTR_END cls" "hd cls \<noteq> 0x3E"
      and a: "\<not> sublist DIV_OPEN a" "\<not> sublist DIV_CLOSE a"
      and b: "\<not> sublist DIV_OPEN b" "\<not> sublist DIV_CLOSE b"
      and c: "\<not> sublist DIV_OPEN c" "\<not> sublist DIV_CLOSE c"
  shows "scan_step (pre @ needle @ cls @ ATTR_END @ a @ DIV_OPEN @ b @ DIV_CLOSE @ c @ DIV_CLOSE @ rest) 0 =
         Some (Continue (length (pre @ needle @ cls @ ATTR_END @ a @ DIV_OPEN @ b @ DIV_CLOSE @ c @ DIV_CLOSE))
                 (Some (if js_includes cls MARK_USER then User else Model,
                        a @ DIV_OPEN @ b @ DIV_CLOSE @ c)))"
proof -
  define body where "body = a @ DIV_OPEN @ b @ DIV_CLOSE @ c"
  define t where "t = a @ DIV_OPEN @ b @ DIV_CLOSE @ c @ DIV_CLOSE @ rest"
  define s where "s = pre @ needle @ cls @ ATTR_END @ t"
  define w where "w = pre @ needle @ cls @ ATTR_END"
  have t: "t = body @ DIV_CLOSE @ rest" by (simp add: t_def body_def)
  have sw: "s = w @ t" by (simp add: s_def w_def)
  have lw: "length w = length pre + 22 + length cls + 2"
    by (simp add: w_def needle_eq ATTR_END_eq)
  have lb: "length body = length a + 4 + length b + 6 + length c"
    by (simp add: body_def DIV_OPEN_eq DIV_CLOSE_eq)
  have "find_sub needle (pre @ needle @ cls @ ATTR_END @ t) = Some (length pre)"
    using needle_shape pre by (rule find_sub_at)
  then have i: "indexOf s needle 0 = Some (length pre)"
    by (simp add: indexOf_def s_def)
  have "\<not> sublist ATTR_END (needle @ cls)"
    using cls(2,3) by (intro no_end_in_needle) simp_all
  with ATTR_END_shape have "find_sub ATTR_END ((needle @ cls) @ ATTR_END @ t) = Some (length (needle @ cls))"
    by (rule find_sub_at)
  then have "indexOf (pre @ needle @ cls @ ATTR_END @ t) ATTR_END (length pre) = Some (22 + length cls + length pre)"
    by (simp add: indexOf_append0 needle_eq)
  then have j: "indexOf s ATTR_END (length pre) = Some (length pre + 22 + length cls)"
    by (simp add: s_def add.commute add.left_commute)
  define jj where "jj = length pre + 22 + length cls"
  define st where "st = jj + 2"
  define kend where "kend = length w + length a + 4 + length b + 6 + length c + 6"
  have ca: "slice_str s (length pre + length needle) jj = cls"
    by (simp add: slice_str_def s_def needle_eq jj_def)
  have stw: "st = length w" by (simp add: st_def jj_def lw)
  have d: "depth_scan s (Suc 0) st = Some (0, kend)"
    using depth_scan_nested [OF a b c, of w rest] by (simp add: sw t_def stw kend_def)
  have fr: "slice_str s st (kend - 6) = body"
  proof -
    have "slice_str (w @ body @ DIV_CLOSE @ rest) (length w) (length w + length body) = body"
      by (simp add: slice_str_def)
    moreover have "kend - 6 = length w + length body" by (simp add: kend_def lb)
    ultimately show ?thesis by (simp add: sw t stw)
  qed
  have k: "kend = length (pre @ needle @ cls @ ATTR_END @ a @ DIV_OPEN @ b @ DIV_CLOSE @ c @ DIV_CLOSE)"
    by (simp add: kend_def lw DIV_OPEN_eq DIV_CLOSE_eq needle_eq ATTR_END_eq)
  have j': "indexOf s ATTR_END (length pre) = Some jj" using j by (simp add: jj_def)
  have "scan_step s 0 = Some (Continue kend
      (Some (if js_includes cls MARK_USER then User else Model, body)))"
  proof -
    have st2: "Suc (Suc jj) = st" by (simp add: st_def)
    show ?thesis
      unfolding scan_step_def using cls(1) by (simp add: i j' ca st2 d fr)
  qed
  then show ?thesis
    unfolding k by (simp only: s_def t_def body_def)
qed

text \<open>
  C10. The scanner returns a list of blocks for every input string, and each pass through
  the body of its outer loop that does not leave the loop moves the scan position strictly
  forward, within the string.
\<close>

theorem C10_scanner_terminates:
  "(\<exists>blocks. extractGrokBlocks fullHtml = Some blocks) \<and>
   (\<forall>pos \<le> length fullHtml. \<exists>r. scan_step fullHtml pos = Some r \<and>
        (\<forall>pos' b. r = Continue pos' b \<longrightarrow> pos < pos' \<and> pos' \<le> length fullHtml))"
proof -
  from scan_blocks_extends [of 0 fullHtml "[]"]
  have "\<exists>blocks. extractGrokBlocks fullHtml = Some blocks"
    unfolding extractGrokBlocks_def by auto
  with scan_step_total [of _ fullHtml] show ?thesis by blast
qed

theorem C10_scanner_terminates_witness:
  "0 \<le> length (needle @ ATTR_END) \<and>
   scan_step (needle @ ATTR_END) 0 = Some (Continue 1 None) \<and> (0::nat) < 1 \<and>
   (\<exists>blocks. extractGrokBlocks (needle @ ATTR_END) = Some blocks)"
proof -
  have i: "indexOf (needle @ ATTR_END) needle 0 = Some 0"
    by (simp add: indexOf_def needle_eq)
  have j: "indexOf (needle @ ATTR_END) ATTR_END 0 = Some 22"
    by (simp add: indexOf_def needle_eq ATTR_END_eq)
  have n: "\<not> js_includes [] MARK_BLOCK"
    by (simp add: js_includes_def indexOf_def MARK_BLOCK_eq)
  have l: "length needle = 22" by (simp add: needle_eq)
  have "scan_step (needle @ ATTR_END) 0 = Some (Continue 1 None)"
    unfolding scan_step_def by (simp add: i j slice_str_def n l)
  with C10_scanner_terminates [of "needle @ ATTR_END"] show ?thesis by simp
qed

text \<open>
  C3. When the first marked opening tag (class attribute \<open>cls\<close> containing the marker
  \<open>r-imh66m\<close>) is followed by text \<open>a\<close>, one nested \<open><div\<close> container with text
  \<open>b\<close>, its \<open></div>\<close>, text \<open>c\<close> and the balancing \<open></div>\<close>, where \<open>a\<close>,
  \<open>b\<close>, \<open>c\<close> hold no further \<open><div\<close> or \<open></div>\<close>, the first block extracted is
  everything between the opening tag and the balancing closing tag: it includes the
  nested container's own closing tag.
\<close>

theorem C3_nested_container:
  assumes "\<not> sublist needle pre"
      and "js_includes cls MARK_BLOCK" "\<not> sublist ATTR_END cls" "hd cls \<noteq> 0x3E"
      and "\<not> sublist DIV_OPEN a" "\<not> sublist DIV_CLOSE a"
      and "\<not> sublist DIV_OPEN b" "\<not> sublist DIV_CLOSE b"
      and "\<not> sublist DIV_OPEN c" "\<not> sublist DIV_CLOSE c"
  shows "\<exists>bs. extractGrokBlocks
            (pre @ needle @ cls @ ATTR_END @ a @ DIV_OPEN @ b @ DIV_CLOSE @ c @ DIV_CLOSE @ rest) =
          Some ((if js_includes cls MARK_USER then User else Model,
                 a @ DIV_OPEN @ b @ DIV_CLOSE @ c) # bs)"
proof -
  define s where "s = pre @ needle @ cls @ ATTR_END @ a @ DIV_OPEN @ b @ DIV_CLOSE @ c @ DIV_CLOSE @ rest"
  define k where "k = length (pre @ needle @ cls @ ATTR_END @ a @ DIV_OPEN @ b @ DIV_CLOSE @ c @ DIV_CLOSE)"
  define blk where "blk = (if js_includes cls MARK_USER then User else Model, a @ DIV_OPEN @ b @ DIV_CLOSE @ c)"
  have st: "scan_step s 0 = Some (Continue k (Some blk))"
    unfolding s_def k_def blk_def using assms by (rule scan_step_nested)
  have "k \<le> length s" by (simp add: k_def s_def)
  from scan_blocks_extends [OF this, of "[] @ [blk]"]
  obtain bs where "scan_blocks s k ([] @ [blk]) = Some (blk # bs)" by auto
  with st have "scan_blocks s 0 [] = Some (blk # bs)"
    by (subst scan_blocks.simps) simp
  then show ?thesis
    unfolding extractGrokBlocks_def s_def blk_def by blast
qed

theorem C3_nested_container_witness:
  "\<exists>bs. extractGrokBlocks
      (needle @ MARK_BLOCK @ ATTR_END @ [0x78] @ DIV_OPEN @ [0x3E, 0x79] @ DIV_CLOSE @ [0x7A] @ DIV_CLOSE) =
    Some ((Model, [0x78] @ DIV_OPEN @ [0x3E, 0x79] @ DIV_CLOSE @ [0x7A]) # bs)"
proof -
  have 1: "\<not> sublist needle []" by (simp add: needle_eq)
  have 2: "js_includes MARK_BLOCK MARK_BLOCK" by (simp add: js_includes_iff_sublist)
  have 3: "\<not> sublist ATTR_END MARK_BLOCK" "hd MARK_BLOCK \<noteq> 0x3E"
    by (simp_all add: ATTR_END_eq MARK_BLOCK_eq sublist_Cons_right)
  have 4: "\<not> sublist DIV_OPEN [0x78]" "\<not> sublist DIV_CLOSE [0x78]"
    "\<not> sublist DIV_OPEN [0x3E, 0x79]" "\<not> sublist DIV_CLOSE [0x3E, 0x79]"
    "\<not> sublist DIV_OPEN [0x7A]" "\<not> sublist DIV_CLOSE [0x7A]"
    by (simp_all add: DIV_OPEN_eq DIV_CLOSE_eq sublist_Cons_right)
  have 5: "\<not> js_includes MARK_BLOCK MARK_USER"
    by (simp add: js_includes_iff_sublist MARK_BLOCK_eq MARK_USER_eq sublist_Cons_right)
  from C3_nested_container [OF 1 2 3 4, of "[]"] 5 show ?thesis by simp
qed

section \<open>Quoted-printable: decoding an encoded byte sequence\<close>

lemma strip_soft_other: "a \<noteq> EQUALS \<Longrightarrow> strip_soft_breaks (a # r) = a # strip_soft_breaks r"
  by (induction "a # r" rule: strip_soft_breaks.induct) auto

lemma strip_soft_escape:
  "b \<noteq> CR \<Longrightarrow> b \<noteq> LF \<Longrightarrow> strip_soft_breaks (EQUALS # b # r) = EQUALS # strip_soft_breaks (b # r)"
  by (cases r) auto

lemma strip_soft_break: "strip_soft_breaks (soft_break crlf @ r) = strip_soft_breaks r"
  by (cases r) (auto simp: soft_break_def)

lemma unat_byte_less: "unat (b :: byte) < 256"
proof -
  have "unat b < 2 ^ LENGTH(8)" by (rule unsigned_less)
  then show ?thesis by simp
qed

lemma unat_ucast_byte: "unat (ucast (b :: byte) :: jschar) = unat b"
proof -
  have "unat b < 2 ^ 16" using unat_byte_less [of b] by simp
  then show ?thesis by (simp add: unsigned_ucast_eq take_bit_nat_eq_self)
qed

lemma unat_hex_digit:
  assumes "n < 16"
  shows "unat (hex_digit n) = (if n < 10 then 48 + n else 55 + n)"
proof (cases "n < 10")
  case True
  then have "unat (hex_digit n) = (48 + n) mod 2 ^ LENGTH(16)"
    by (simp only: hex_digit_def unat_of_nat if_True)
  with True show ?thesis by simp
next
  case False
  then have "unat (hex_digit n) = (55 + n) mod 2 ^ LENGTH(16)"
    by (simp only: hex_digit_def unat_of_nat if_False)
  with False assms show ?thesis by simp
qed

lemma hexval_hex_digit:
  assumes "n < 16"
  shows "hexval (hex_digit n) = Some n"
proof -
  have u: "unat (hex_digit n) = (if n < 10 then 48 + n else 55 + n)"
    using assms by (rule unat_hex_digit)
  show ?thesis
    unfolding hexval_def word_le_nat_alt using assms u by (auto simp: not_le)
qed

lemma hex_digit_plain:
  assumes "n < 16"
  shows "hex_digit n \<noteq> EQUALS" "hex_digit n \<noteq> CR" "hex_digit n \<noteq> LF"
proof -
  have u: "unat (hex_digit n) = (if n < 10 then 48 + n else 55 + n)"
    using assms by (rule unat_hex_digit)
  have "unat (hex_digit n) \<noteq> unat EQUALS" "unat (hex_digit n) \<noteq> unat CR" "unat (hex_digit n) \<noteq> unat LF"
    using assms u by (auto split: if_splits)
  then show "hex_digit n \<noteq> EQUALS" "hex_digit n \<noteq> CR" "hex_digit n \<noteq> LF" by auto
qed

lemma low8_ucast: "low8 (ucast (b :: byte)) = b"
proof -
  have m: "(0xff :: jschar) = mask 8" by (simp add: mask_eq_exp_minus_1)
  show ?thesis
    unfolding low8_def m by (rule bit_word_eqI) (auto simp: bit_simps)
qed

lemma byte_of_nibbles: "of_nat (16 * (unat (b :: byte) div 16) + unat b mod 16) = b"
  by simp

lemma ucast_byte_not_equals: "unat (b :: byte) \<noteq> 61 \<Longrightarrow> (ucast b :: jschar) \<noteq> EQUALS"
proof
  assume a: "unat b \<noteq> 61" and "(ucast b :: jschar) = EQUALS"
  then have "unat (ucast b :: jschar) = 61" by simp
  then have "unat b = 61" by (simp add: unat_ucast_byte)
  with a show False by simp
qed

lemma strip_soft_token:
  "strip_soft_breaks (qp_encode_byte b @ r) = qp_encode_byte b @ strip_soft_breaks r"
proof (cases "33 \<le> unat b \<and> unat b \<le> 126 \<and> unat b \<noteq> 61")
  case True
  then have "(ucast b :: jschar) \<noteq> EQUALS" by (simp add: ucast_byte_not_equals)
  with True show ?thesis by (simp add: qp_encode_byte_def strip_soft_other)
next
  case False
  have d: "unat b div 16 < 16" "unat b mod 16 < 16"
    using unat_byte_less [of b] by simp_all
  from False have "qp_encode_byte b = [EQUALS, hex_digit (unat b div 16), hex_digit (unat b mod 16)]"
    by (auto simp: qp_encode_byte_def)
  then show ?thesis
    by (simp add: strip_soft_escape strip_soft_other hex_digit_plain [OF d(1)]
        hex_digit_plain [OF d(2)])
qed

lemma strip_soft_wrap:
  "strip_soft_breaks (qp_wrap crlf width col (map qp_encode_byte bs)) = concat (map qp_encode_byte bs)"
proof (induction bs arbitrary: col)
  case Nil
  then show ?case by simp
next
  case (Cons b bs)
  show ?case
  proof (cases "width < col + length (qp_encode_byte b)")
    case True
    then show ?thesis
      using Cons [of "length (qp_encode_byte b)"] by (simp add: strip_soft_break strip_soft_token)
  next
    case False
    then show ?thesis
      using Cons [of "col + length (qp_encode_byte b)"] by (simp add: strip_soft_token)
  qed
qed

lemma qp_scan_literal:
  assumes "c \<noteq> EQUALS"
  shows "qp_scan (c # r) = low8 c # qp_scan r"
proof (cases r)
  case Nil
  then show ?thesis by simp
next
  case (Cons x r')
  then show ?thesis using assms by (cases r') (auto split: option.splits)
qed

lemma qp_scan_token: "qp_scan (qp_encode_byte b @ r) = b # qp_scan r"
proof (cases "33 \<le> unat b \<and> unat b \<le> 126 \<and> unat b \<noteq> 61")
  case True
  then have "(ucast b :: jschar) \<noteq> EQUALS" by (simp add: ucast_byte_not_equals)
  with True show ?thesis by (simp add: qp_encode_byte_def qp_scan_literal low8_ucast)
next
  case False
  have d: "unat b div 16 < 16" "unat b mod 16 < 16"
    using unat_byte_less [of b] by simp_all
  from False have "qp_encode_byte b = [EQUALS, hex_digit (unat b div 16), hex_digit (unat b mod 16)]"
    by (auto simp: qp_encode_byte_def)
  then show ?thesis
    by (simp add: hexval_hex_digit [OF d(1)] hexval_hex_digit [OF d(2)])
qed

lemma qp_scan_tokens: "qp_scan (concat (map qp_encode_byte bs)) = bs"
  by (induction bs) (simp_all add: qp_scan_token)

text \<open>
  C4. Decoding the quoted-printable encoding of any byte sequence, whatever the bytes,
  the line width of the encoder and the form of its soft line breaks, gives the sequence
  back.
\<close>

theorem C4_qp_round_trip: "qpDecodeToBytes (qp_encode crlf width buf) = buf"
  by (simp add: qpDecodeToBytes_def qp_encode_def strip_soft_wrap qp_scan_tokens)

section \<open>Charset decoding: the first decoder that succeeds\<close>

lemma first_decoded_append:
  "first_decoded td buf (xs @ ys) =
     (case first_decoded td buf xs of Some s \<Rightarrow> Some s | None \<Rightarrow> first_decoded td buf ys)"
  by (induction xs) (auto split: option.splits)

lemma first_decoded_None: "first_decoded td buf xs = None \<Longrightarrow> c \<in> set xs \<Longrightarrow> td c buf = None"
  by (induction xs) (auto split: option.splits)

lemma first_decoded_push_missing:
  "first_decoded td buf (push_missing tries cs) = first_decoded td buf (tries @ cs)"
proof (induction cs arbitrary: tries)
  case Nil
  then show ?case by simp
next
  case (Cons c cs)
  show ?case
  proof (cases "c \<in> set tries")
    case False
    with Cons [of "tries @ [c]"] show ?thesis by simp
  next
    case True
    have "first_decoded td buf (tries @ c # cs) = first_decoded td buf (tries @ cs)"
    proof (cases "first_decoded td buf tries")
      case None
      from None True have "td c buf = None" by (rule first_decoded_None)
      with None show ?thesis by (simp add: first_decoded_append)
    next
      case (Some s)
      then show ?thesis by (simp add: first_decoded_append)
    qed
    with True Cons [of tries] show ?thesis by simp
  qed
qed

lemma first_decoded_find:
  "first_decoded td buf xs =
     (case find (\<lambda>cs. td cs buf \<noteq> None) xs of None \<Rightarrow> None | Some cs \<Rightarrow> td cs buf)"
  by (induction xs) (auto split: option.splits)

text \<open>
  C5. \<open>decodeBytes\<close> has no error outcome: its value is the text of the first decoder
  that does not throw, among the hint (when it is neither \<open>null\<close> nor empty), utf-8,
  cp949, euc-kr, windows-1252 and latin1 in this order, and the non-strict UTF-8 decoding
  when each of them throws.
\<close>

theorem C5_decodeBytes_first_success:
  "decodeBytes td lossy buf charsetHint =
     (case find (\<lambda>cs. td cs buf \<noteq> None)
             ((case charsetHint of None \<Rightarrow> [] | Some h \<Rightarrow> if h = [] then [] else [h]) @
              [js ''utf-8'', js ''cp949'', js ''euc-kr'', js ''windows-1252'', js ''latin1''])
      of Some cs \<Rightarrow> the (td cs buf)
       | None \<Rightarrow> lossy buf)"
proof -
  define order where "order =
    (case charsetHint of None \<Rightarrow> [] | Some h \<Rightarrow> if h = [] then [] else [h]) @ default_charsets"
  have "decodeBytes td lossy buf charsetHint =
      (case first_decoded td buf order of Some s \<Rightarrow> s | None \<Rightarrow> lossy buf)"
    by (simp add: decodeBytes_def first_decoded_push_missing order_def)
  also have "\<dots> = (case find (\<lambda>cs. td cs buf \<noteq> None) order of
      Some cs \<Rightarrow> the (td cs buf) | None \<Rightarrow> lossy buf)"
  proof (cases "find (\<lambda>cs. td cs buf \<noteq> None) order")
    case None
    then show ?thesis by (simp add: first_decoded_find)
  next
    case (Some cs)
    then have "td cs buf \<noteq> None" by (auto simp: find_Some_iff)
    with Some show ?thesis by (auto simp: first_decoded_find)
  qed
  finally show ?thesis
    unfolding order_def default_charsets_def .
qed

section \<open>Table rendering: the shape of the rendered table\<close>

lemma set_collapse_ws: "x \<in> set (collapse_ws s) \<Longrightarrow> x = SP \<or> \<not> is_space x"
  by (induction s rule: collapse_ws.induct) (auto split: if_splits)

lemma LF_notin_normalizeText: "LF \<notin> set (normalizeText t)"
proof
  assume "LF \<in> set (normalizeText t)"
  then have "LF \<in> set (collapse_ws (map (\<lambda>c. if c = NBSP then SP else c) t))"
    unfolding normalizeText_def using set_js_trim by blast
  then have "LF = SP \<or> \<not> is_space LF" by (rule set_collapse_ws)
  then show False by (simp add: is_space_LF)
qed

lemma set_escape_pipes: "set (escape_pipes t) \<subseteq> insert BACKSLASH (set t)"
  by (induction t) auto

lemma LF_notin_escape: "LF \<notin> set t \<Longrightarrow> LF \<notin> set (escape_pipes t)"
  using set_escape_pipes [of t] by auto

lemma bare_pipes_escaped:
  "bare_pipes esc (escape_pipes t @ SP # r) = bare_pipes False r"
  by (induction t arbitrary: esc) auto

lemma js_sep: "js '' | '' = [SP, PIPE, SP]" and js_open: "js ''| '' = [PIPE, SP]"
  and js_shut: "js '' |'' = [SP, PIPE]" and js_dashes: "js ''---'' = [0x2D, 0x2D, 0x2D]"
  by (simp_all add: js_def)

lemma bare_pipes_join:
  assumes "\<forall>e \<in> set cells. \<exists>t. e = escape_pipes t" "cells \<noteq> []"
  shows "bare_pipes esc (js_join [SP, PIPE, SP] cells @ SP # r) = length cells - 1 + bare_pipes False r"
  using assms
proof (induction cells arbitrary: esc)
  case Nil
  then show ?case by simp
next
  case (Cons x xs)
  from Cons.prems obtain t where x: "x = escape_pipes t" by auto
  show ?case
  proof (cases xs)
    case Nil
    then show ?thesis by (simp add: x bare_pipes_escaped)
  next
    case (Cons y ys)
    have "bare_pipes esc (js_join [SP, PIPE, SP] (x # xs) @ SP # r) =
          bare_pipes esc (escape_pipes t @ SP # (PIPE # SP # js_join [SP, PIPE, SP] xs @ SP # r))"
      by (simp add: x Cons)
    also have "\<dots> = bare_pipes False (PIPE # SP # js_join [SP, PIPE, SP] xs @ SP # r)"
      by (rule bare_pipes_escaped)
    also have "\<dots> = 1 + bare_pipes False (js_join [SP, PIPE, SP] xs @ SP # r)"
      by simp
    also have "\<dots> = 1 + (length xs - 1 + bare_pipes False r)"
      using Cons.IH [of False] Cons.prems Cons by simp
    finally show ?thesis using Cons by simp
  qed
qed

lemma bare_pipes_row_line:
  assumes "\<forall>e \<in> set cells. \<exists>t. e = escape_pipes t" "cells \<noteq> []"
  shows "bare_pipes False (row_line cells) = length cells + 1"
proof -
  have "row_line cells = PIPE # SP # (js_join [SP, PIPE, SP] cells @ SP # [PIPE])"
    by (simp add: row_line_def js_sep js_open js_shut)
  then have "bare_pipes False (row_line cells) =
      1 + bare_pipes False (js_join [SP, PIPE, SP] cells @ SP # [PIPE])"
    by simp
  also have "\<dots> = 1 + (length cells - 1 + bare_pipes False [PIPE])"
    using bare_pipes_join [OF assms, of False "[PIPE]"] by simp
  finally show ?thesis using assms(2) by (cases cells) simp_all
qed

lemma LF_notin_row_line:
  assumes "\<forall>e \<in> set cells. LF \<notin> set e"
  shows "LF \<notin> set (row_line cells)"
proof -
  have "set (row_line cells) \<subseteq> {PIPE, SP} \<union> \<Union> (set ` set cells)"
    using set_js_join [of "[SP, PIPE, SP]" cells]
    by (auto simp: row_line_def js_sep js_open js_shut)
  with assms show ?thesis by auto
qed

lemma fold_max_ge: "m \<le> fold max ns (m :: nat)"
  by (induction ns arbitrary: m) (auto intro: order_trans [OF max.cobounded2])

lemma fold_max_mem: "n \<in> set ns \<Longrightarrow> n \<le> fold max ns (m :: nat)"
proof (induction ns arbitrary: m)
  case Nil
  then show ?case by simp
next
  case (Cons a ns)
  show ?case
  proof (cases "n = a")
    case True
    have "max a m \<le> fold max ns (max a m)" by (rule fold_max_ge)
    with True show ?thesis by simp
  next
    case False
    with Cons show ?thesis by simp
  qed
qed

lemma length_le_max_length: "r \<in> set rows \<Longrightarrow> length r \<le> max_length rows"
  unfolding max_length_def by (rule fold_max_mem) simp

lemma fold_max_pos: "n \<in> set ns \<Longrightarrow> 0 < n \<Longrightarrow> 0 < fold max ns (m :: nat)"
  using fold_max_mem [of n ns m] by simp

lemma max_length_map: "max_length (map (map f) rows) = max_length rows"
  by (simp add: max_length_def comp_def)

lemma padded_row:
  assumes "r \<in> set trs"
  defines "w \<equiv> max_length trs"
  defines "p \<equiv> map cell_md r @ replicate (w - length r) []"
  shows "length p = w" "\<forall>e \<in> set p. \<exists>t. e = escape_pipes t" "\<forall>e \<in> set p. LF \<notin> set e"
proof -
  from assms(1) have "length r \<le> w" unfolding w_def by (rule length_le_max_length)
  then show "length p = w" by (simp add: p_def)
  have "[] = escape_pipes []" by simp
  then show "\<forall>e \<in> set p. \<exists>t. e = escape_pipes t"
    unfolding p_def cell_md_def by (auto simp del: escape_pipes.simps)
  show "\<forall>e \<in> set p. LF \<notin> set e"
    unfolding p_def cell_md_def using LF_notin_normalizeText LF_notin_escape by auto
qed

lemma separator_row:
  "\<forall>e \<in> set (replicate w (js ''---'')). \<exists>t. e = escape_pipes t"
  "\<forall>e \<in> set (replicate w (js ''---'')). LF \<notin> set e"
proof -
  have "js ''---'' = escape_pipes [0x2D, 0x2D, 0x2D]" by (simp add: js_dashes)
  then have "\<exists>t. js ''---'' = escape_pipes t" by (rule exI)
  then show "\<forall>e \<in> set (replicate w (js ''---'')). \<exists>t. e = escape_pipes t" by simp
  show "\<forall>e \<in> set (replicate w (js ''---'')). LF \<notin> set e" by (simp add: js_dashes)
qed

subsection \<open>The words of a text\<close>

lemma ws_words_Nil: "ws_words [] = []"
  by (simp add: ws_words.simps)

lemma ws_words_space: "is_space c \<Longrightarrow> ws_words (c # r) = ws_words r"
  by (subst ws_words.simps, subst (2) ws_words.simps) simp

lemma ws_words_other:
  "\<not> is_space c \<Longrightarrow>
     ws_words (c # r) =
       (c # takeWhile (\<lambda>x. \<not> is_space x) r) # ws_words (dropWhile (\<lambda>x. \<not> is_space x) r)"
  by (subst ws_words.simps) simp

lemma ws_words_dropWhile: "ws_words (dropWhile is_space s) = ws_words s"
  by (induction s) (simp_all add: ws_words_space)

lemma ws_words_empty_iff: "ws_words s = [] \<longleftrightarrow> (\<forall>x \<in> set s. is_space x)"
proof (induction s)
  case Nil
  then show ?case by (simp add: ws_words_Nil)
next
  case (Cons c r)
  then show ?case by (cases "is_space c") (simp_all add: ws_words_space ws_words_other)
qed

lemma ws_words_other2:
  "\<not> is_space c \<Longrightarrow> \<not> is_space d \<Longrightarrow>
     ws_words (c # d # r) = (c # hd (ws_words (d # r))) # tl (ws_words (d # r))"
  by (simp add: ws_words_other)

lemma ws_words_other1:
  "\<not> is_space c \<Longrightarrow> r = [] \<or> is_space (hd r) \<Longrightarrow> ws_words (c # r) = [c] # ws_words r"
  by (cases r) (auto simp: ws_words_other ws_words_Nil)

lemma ws_words_elem:
  "w \<in> set (ws_words s) \<Longrightarrow> w \<noteq> [] \<and> (\<forall>x \<in> set w. \<not> is_space x)"
proof (induction s arbitrary: w rule: length_induct)
  case (1 s)
  show ?case
  proof (cases "dropWhile is_space s")
    case Nil
    with 1(2) show ?thesis by (simp add: ws_words.simps)
  next
    case (Cons c r)
    have c: "\<not> is_space c" using hd_dropWhile [of is_space s] Cons by simp
    have len: "length (dropWhile (\<lambda>x. \<not> is_space x) r) < length s"
      using length_dropWhile_le [of "\<lambda>x. \<not> is_space x" r] length_dropWhile_le [of is_space s] Cons
      by simp
    from 1(2) Cons have "w = c # takeWhile (\<lambda>x. \<not> is_space x) r
        \<or> w \<in> set (ws_words (dropWhile (\<lambda>x. \<not> is_space x) r))"
      by (subst (asm) ws_words.simps) auto
    then show ?thesis
    proof
      assume "w = c # takeWhile (\<lambda>x. \<not> is_space x) r"
      with c show ?thesis by (auto dest: set_takeWhileD)
    next
      assume "w \<in> set (ws_words (dropWhile (\<lambda>x. \<not> is_space x) r))"
      with 1(1) len show ?thesis by blast
    qed
  qed
qed


subsection \<open>Collapsed white space\<close>

lemma collapse_ws_nbsp: "collapse_ws (map (\<lambda>c. if c = NBSP then SP else c) t) = collapse_ws t"
proof (induction t rule: collapse_ws.induct)
  case 1
  then show ?case by simp
next
  case (2 c r)
  let ?f = "\<lambda>c. if c = NBSP then SP else c"
  have sp: "is_space (?f x) = is_space x" for x by (simp add: is_space_def)
  have d: "dropWhile is_space (map ?f r) = map ?f (dropWhile is_space r)"
    by (simp add: dropWhile_map comp_def sp)
  show ?case
  proof (cases "is_space c")
    case True
    with 2 d sp [of c] show ?thesis by simp
  next
    case False
    then have "c \<noteq> NBSP" by (auto simp: is_space_def)
    with 2 False show ?thesis by simp
  qed
qed

lemma collapse_ws_words:
  "collapse_ws s =
     (if s \<noteq> [] \<and> is_space (hd s) then [SP] else []) @ js_join [SP] (ws_words s) @
     (if ws_words s \<noteq> [] \<and> is_space (last s) then [SP] else [])"
proof (induction s rule: collapse_ws.induct)
  case 1
  then show ?case by (simp add: ws_words_Nil)
next
  case (2 c r)
  show ?case
  proof (cases "is_space c")
    case True
    define t where "t = dropWhile is_space r"
    have w: "ws_words (c # r) = ws_words t"
      using True by (simp add: ws_words_space t_def ws_words_dropWhile)
    have h: "\<not> (t \<noteq> [] \<and> is_space (hd t))"
      unfolding t_def using hd_dropWhile [of is_space r] by auto
    have l: "last (c # r) = last t" if "ws_words t \<noteq> []"
    proof -
      from that have "t \<noteq> []" by (auto simp: ws_words_Nil)
      then have "last t = last r" "r \<noteq> []" unfolding t_def by (auto simp: last_dropWhile)
      then show ?thesis by simp
    qed
    have "collapse_ws (c # r) = SP # collapse_ws t" using True by (simp add: t_def)
    also have "collapse_ws t = js_join [SP] (ws_words t) @
        (if ws_words t \<noteq> [] \<and> is_space (last t) then [SP] else [])"
      using "2.IH"(1) [OF True] h unfolding t_def by auto
    finally have "collapse_ws (c # r) = SP # js_join [SP] (ws_words t) @
        (if ws_words t \<noteq> [] \<and> is_space (last t) then [SP] else [])" .
    then have k: "collapse_ws (c # r) = SP # js_join [SP] (ws_words t) @
        (if ws_words t \<noteq> [] \<and> is_space (last t) then [SP] else [])" .
    show ?thesis
    proof (cases "ws_words t = []")
      case e: True
      with k True show ?thesis unfolding w by simp
    next
      case False
      with l have "last (c # r) = last t" .
      with k True False show ?thesis unfolding w by simp
    qed
  next
    case False
    have ih: "collapse_ws r =
        (if r \<noteq> [] \<and> is_space (hd r) then [SP] else []) @ js_join [SP] (ws_words r) @
        (if ws_words r \<noteq> [] \<and> is_space (last r) then [SP] else [])"
      using "2.IH"(2) [OF False] .
    have c: "collapse_ws (c # r) = c # collapse_ws r" using False by simp
    show ?thesis
    proof (cases "r = [] \<or> is_space (hd r)")
      case True
      then have w: "ws_words (c # r) = [c] # ws_words r" using False by (intro ws_words_other1)
      show ?thesis
      proof (cases "ws_words r = []")
        case e: True
        then have "\<forall>x \<in> set r. is_space x" by (simp add: ws_words_empty_iff)
        then have "r \<noteq> [] \<longrightarrow> is_space (last r)" by auto
        with e True False show ?thesis unfolding c ih w by auto
      next
        case ne: False
        then have "r \<noteq> []" by (auto simp: ws_words_Nil)
        with ne True False show ?thesis unfolding c ih w by (cases "ws_words r") auto
      qed
    next
      case nsp: False
      then obtain d r' where r: "r = d # r'" "\<not> is_space d" by (cases r) auto
      obtain w ws where ws: "ws_words r = w # ws"
        using r by (simp add: ws_words_other)
      have "ws_words (c # r) = (c # w) # ws"
        using False r ws ws_words_other2 [of c d r'] by simp
      with ws r False show ?thesis unfolding c ih by (cases ws) auto
    qed
  qed
qed

lemma hd_js_join: "ws \<noteq> [] \<Longrightarrow> hd ws \<noteq> [] \<Longrightarrow> hd (js_join sep ws) = hd (hd ws)"
  by (induction sep ws rule: js_join.induct) auto

lemma last_js_join:
  assumes "ws \<noteq> []" and "last ws \<noteq> []"
  shows "last (js_join sep ws) = last (last ws)"
proof (cases "butlast ws = []")
  case True
  with assms(1) have "ws = [last ws]" by (metis append_butlast_last_id append_Nil)
  then have "js_join sep ws = last ws" by (metis js_join.simps(2))
  then show ?thesis by simp
next
  case False
  then have "js_join sep (butlast ws @ [last ws]) = js_join sep (butlast ws) @ sep @ last ws"
    by (rule js_join_snoc)
  with assms show ?thesis by simp
qed

lemma js_trim_spaces_around:
  assumes "\<forall>x \<in> set a. is_space x" and "\<forall>x \<in> set b. is_space x"
    and "js_trim m = m"
  shows "js_trim (a @ m @ b) = m"
proof (cases m)
  case Nil
  with assms have "\<forall>x \<in> set (a @ m @ b). is_space x" by auto
  then have d: "dropWhile is_space (a @ m @ b) = []" unfolding dropWhile_eq_Nil_conv .
  show ?thesis unfolding js_trim_def d using Nil by simp
next
  case (Cons c r)
  with assms(3) have h: "\<not> is_space (hd m)" and l: "\<not> is_space (last m)"
    unfolding js_trim_fixed_iff by simp_all
  from h Cons have "dropWhile is_space (m @ b) = m @ b" by simp
  moreover have "dropWhile is_space (a @ m @ b) = dropWhile is_space (m @ b)"
    using assms(1) by (intro dropWhile_append2) simp
  ultimately have 1: "dropWhile is_space (a @ m @ b) = m @ b" by simp
  from l Cons have "\<not> is_space (hd (rev m))" unfolding hd_rev by simp
  then have "dropWhile is_space (rev m) = rev m" using Cons by (cases "rev m") auto
  moreover have "dropWhile is_space (rev b @ rev m) = dropWhile is_space (rev m)"
    using assms(2) by (intro dropWhile_append2) simp
  ultimately have "dropWhile is_space (rev b @ rev m) = rev m" by simp
  then show ?thesis unfolding js_trim_def 1 by simp
qed

lemma normalizeText_words: "normalizeText t = js_join [SP] (ws_words t)"
proof -
  define m where "m = js_join [SP] (ws_words t)"
  have e: "\<forall>w \<in> set (ws_words t). w \<noteq> [] \<and> (\<forall>x \<in> set w. \<not> is_space x)"
    using ws_words_elem by blast
  have "js_trim m = m"
  proof (cases "ws_words t = []")
    case True
    then show ?thesis by (simp add: m_def js_trim_Nil)
  next
    case False
    then have i: "hd (ws_words t) \<in> set (ws_words t)" "last (ws_words t) \<in> set (ws_words t)"
      by simp_all
    with e have n: "hd (ws_words t) \<noteq> []" "last (ws_words t) \<noteq> []" by blast+
    with False have "hd m = hd (hd (ws_words t))" "last m = last (last (ws_words t))"
      unfolding m_def by (simp_all add: hd_js_join last_js_join)
    moreover have "\<not> is_space (hd (hd (ws_words t)))" "\<not> is_space (last (last (ws_words t)))"
      using e i n by (meson hd_in_set last_in_set)+
    ultimately show ?thesis unfolding js_trim_fixed_iff by simp
  qed
  then have "js_trim ((if t \<noteq> [] \<and> is_space (hd t) then [SP] else []) @ m @
      (if ws_words t \<noteq> [] \<and> is_space (last t) then [SP] else [])) = m"
    by (intro js_trim_spaces_around) (auto simp: is_space_def)
  then show ?thesis
    unfolding normalizeText_def collapse_ws_nbsp collapse_ws_words [of t] m_def .
qed

lemma escape_pipes_concat:
  "escape_pipes u = concat (map (\<lambda>c. if c = PIPE then [BACKSLASH, PIPE] else [c]) u)"
  by (induction u) auto

lemma cell_md_spec: "cell_md t = spec_cell_text t"
  by (simp add: cell_md_def spec_cell_text_def normalizeText_words escape_pipes_concat)

lemma row_line_spec:
  "row_line (map cell_md r @ replicate (w - length r) []) = spec_row_line w r"
proof -
  have "cell_md = spec_cell_text" by (rule ext) (rule cell_md_spec)
  then show ?thesis by (simp add: row_line_def spec_row_line_def)
qed

lemma row_line_separator: "row_line (replicate w (js ''---'')) = spec_separator_line w"
  by (simp add: row_line_def spec_separator_line_def)

lemma table_rendering:
  assumes "rows = filter (\<lambda>cells. cells \<noteq> []) trs" and "rows \<noteq> []"
  defines "w \<equiv> max_length rows"
  defines "ls \<equiv> spec_row_line w (hd rows) # spec_separator_line w # map (spec_row_line w) (tl rows)"
  shows "tableToMarkdown trs = js_join [LF] ls @ [LF, LF]"
    and "\<forall>l \<in> set ls. LF \<notin> set l \<and> bare_pipes False l = w + 1"
proof -
  define norm where "norm = map (\<lambda>r. map cell_md r @ replicate (w - length r) []) rows"
  have ne: "\<forall>cells \<in> set rows. cells \<noteq> []" unfolding assms(1) by simp
  with assms(2) obtain r0 where r0: "r0 \<in> set rows" "r0 \<noteq> []" by (cases rows) auto
  then have "0 < length r0" by simp
  with length_le_max_length [OF r0(1)] have wpos: "0 < w" unfolding w_def by arith
  have n: "map ((\<lambda>r. r @ replicate (w - length r) []) \<circ> map cell_md) rows = norm"
    by (simp add: norm_def comp_def)
  have nn: "norm \<noteq> []" using assms(2) by (simp add: norm_def)
  have l: "ls = row_line (hd norm) # row_line (replicate w (js ''---'')) # map row_line (tl norm)"
    using assms(2)
    by (cases rows) (simp_all add: ls_def norm_def row_line_spec row_line_separator)
  show "tableToMarkdown trs = js_join [LF] ls @ [LF, LF]"
    using assms(2) nn
    by (simp add: tableToMarkdown_def Let_def max_length_map n l flip: assms(1) w_def)
  have rows: "LF \<notin> set (row_line p) \<and> bare_pipes False (row_line p) = w + 1" if "p \<in> set norm" for p
  proof -
    from that obtain r where r: "r \<in> set rows" "p = map cell_md r @ replicate (w - length r) []"
      by (auto simp: norm_def)
    from padded_row [OF r(1)] have p: "length p = w" "\<forall>e \<in> set p. \<exists>t. e = escape_pipes t"
        "\<forall>e \<in> set p. LF \<notin> set e"
      unfolding r(2) w_def by blast+
    from p(1) wpos have "p \<noteq> []" by auto
    with p show ?thesis by (simp add: bare_pipes_row_line LF_notin_row_line)
  qed
  have s: "LF \<notin> set (row_line (replicate w (js ''---''))) \<and>
      bare_pipes False (row_line (replicate w (js ''---''))) = w + 1"
  proof -
    from wpos have ne: "replicate w (js ''---'') \<noteq> []" by simp
    have a: "bare_pipes False (row_line (replicate w (js ''---''))) = length (replicate w (js ''---'')) + 1"
      using separator_row(1) ne by (rule bare_pipes_row_line)
    have b: "LF \<notin> set (row_line (replicate w (js ''---'')))"
      using separator_row(2) by (rule LF_notin_row_line)
    from a b show ?thesis by simp
  qed
  have "set ls = insert (row_line (replicate w (js ''---''))) (row_line ` set norm)"
    unfolding l using nn by (cases norm) auto
  with rows s show "\<forall>l \<in> set ls. LF \<notin> set l \<and> bare_pipes False l = w + 1" by auto
qed

lemma table_without_cells:
  "filter (\<lambda>cells. cells \<noteq> []) trs = [] \<Longrightarrow> tableToMarkdown trs = []"
  by (simp add: tableToMarkdown_def)

text \<open>
  C7 (amended). Of the \<open>tr\<close> rows of a table, those that hold at least one cell are
  rendered. When there is none the rendered text is empty. Otherwise it is the lines of
  the table joined by line breaks and followed by two line breaks: the line of the first
  row, the separator line of \<open>---\<close> cells and the lines of the other rows, which is one
  line more than there are rows. The line of a row is its cells, padded with empty cells
  to the length of the longest row, between pipes; the text of a cell is the words of its
  text joined by single spaces, with a backslash before every pipe. No line contains a
  line break, and every line has as many cells as the longest row (one delimiting pipe
  more than that).
\<close>

theorem C7_table_shape:
  fixes trs :: "jsstring list list"
  defines "rows \<equiv> filter (\<lambda>cells. cells \<noteq> []) trs"
  defines "w \<equiv> max_length rows"
  defines "ls \<equiv> spec_row_line w (hd rows) # spec_separator_line w # map (spec_row_line w) (tl rows)"
  shows "(rows = [] \<longrightarrow> tableToMarkdown trs = []) \<and>
         (rows \<noteq> [] \<longrightarrow>
            tableToMarkdown trs = js_join [LF] ls @ [LF, LF] \<and>
            length ls = length rows + 1 \<and>
            (\<forall>l \<in> set ls. LF \<notin> set l \<and> bare_pipes False l = w + 1))"
proof (intro conjI impI)
  assume "rows = []"
  then show "tableToMarkdown trs = []" unfolding rows_def by (rule table_without_cells)
next
  assume r: "rows \<noteq> []"
  show "tableToMarkdown trs = js_join [LF] ls @ [LF, LF]"
    unfolding ls_def w_def using rows_def r by (intro table_rendering(1)) simp_all
  show "length ls = length rows + 1" using r by (cases rows) (simp_all add: ls_def)
  show "\<forall>l \<in> set ls. LF \<notin> set l \<and> bare_pipes False l = w + 1"
    unfolding ls_def w_def using rows_def r by (intro table_rendering(2)) simp_all
qed


text \<open>The theorem at a table of three \<open>tr\<close> rows, one of them without cells, and at a table
  whose two rows hold no cell.\<close>

definition jagged_table :: "jsstring list list" where
  "jagged_table = [[js ''a'', [SP, 0x62, SP, TAB, PIPE, 0x63, NBSP]], [], [js ''d'']]"

theorem C7_table_shape_witness:
  "tableToMarkdown [[], []] = [] \<and>
   tableToMarkdown jagged_table =
     js ''| a | b '' @ [BACKSLASH] @ js ''|c |'' @ [LF] @ js ''| --- | --- |'' @ [LF] @
     js ''| d |  |'' @ [LF, LF]"
proof -
  define rows where "rows = filter (\<lambda>cells. cells \<noteq> []) jagged_table"
  have a: "rows \<noteq> []" unfolding rows_def by code_simp
  have b: "spec_row_line (max_length rows) (hd rows) # spec_separator_line (max_length rows) #
        map (spec_row_line (max_length rows)) (tl rows) =
      [js ''| a | b '' @ [BACKSLASH] @ js ''|c |'', js ''| --- | --- |'', js ''| d |  |'']"
    unfolding rows_def by code_simp
  have c: "filter (\<lambda>cells. cells \<noteq> []) [[], [] :: jsstring list] = []" by simp
  from C7_table_shape [of "[[], []]"] c have 1: "tableToMarkdown [[], []] = []" by blast
  from C7_table_shape [of jagged_table] a
  have "tableToMarkdown jagged_table =
      js_join [LF] [js ''| a | b '' @ [BACKSLASH] @ js ''|c |'', js ''| --- | --- |'', js ''| d |  |''] @
      [LF, LF]"
    unfolding rows_def [symmetric] b by blast
  with 1 show ?thesis by simp
qed

text \<open>
  C7 as stated fails for a table without rows: each of its rows holds a cell, and the
  rendered text is empty, which is not the one line that the count of rows plus one asks
  for.
\<close>

theorem C7_empty_table_counterexample: "tableToMarkdown [] = []"
  by (simp add: tableToMarkdown_def)

section \<open>The transcript: parsing what the formatter wrote\<close>

lemma split_lines_nonempty: "split_lines s \<noteq> []"
  by (induction s rule: split_lines.induct) (auto split: list.splits)

text \<open>No carriage return of the string stands immediately before a line feed, also when
  a line feed is put after the string.\<close>

fun plain_breaks :: "jsstring \<Rightarrow> bool" where
  "plain_breaks [] = True"
| "plain_breaks [c] = (c \<noteq> CR)"
| "plain_breaks (c # d # r) = (\<not> (c = CR \<and> d = LF) \<and> plain_breaks (d # r))"

lemma plain_breaks_iff:
  "plain_breaks s \<longleftrightarrow> \<not> sublist [CR, LF] s \<and> (s = [] \<or> last s \<noteq> CR)"
  by (induction s rule: plain_breaks.induct) (auto simp: sublist_Cons_right)

lemma split_lines_append_LF:
  "plain_breaks x \<Longrightarrow> split_lines (x @ LF # rest) = split_lines x @ split_lines rest"
proof (induction x rule: plain_breaks.induct)
  case 1
  then show ?case by (cases rest) auto
next
  case (2 c)
  then show ?case
    using split_lines_nonempty [of rest] by (cases rest) (auto split: list.splits)
next
  case (3 c d r)
  then show ?case
    using split_lines_nonempty [of "d # r"] by (auto split: list.splits)
qed

lemma split_lines_LF_end: "plain_breaks x \<Longrightarrow> split_lines (x @ [LF]) = split_lines x @ [[]]"
  using split_lines_append_LF [of x "[]"] by simp

lemma join_split_lines: "plain_breaks s \<Longrightarrow> js_join [LF] (split_lines s) = s"
proof (induction s rule: plain_breaks.induct)
  case 1
  then show ?case by simp
next
  case (2 c)
  then show ?case by simp
next
  case (3 c d r)
  then have ih: "js_join [LF] (split_lines (d # r)) = d # r" by simp
  show ?case
  proof (cases "c = LF")
    case True
    with ih split_lines_nonempty [of "d # r"] show ?thesis by (simp add: js_join_Cons)
  next
    case False
    obtain l ls where e: "split_lines (d # r) = l # ls"
      using split_lines_nonempty [of "d # r"] by (cases "split_lines (d # r)") auto
    with ih have "js_join [LF] ((c # l) # ls) = c # d # r" by (cases ls) auto
    with False 3(2) e show ?thesis by auto
  qed
qed

lemma split_lines_join:
  assumes "\<forall>x \<in> set xs. plain_breaks x" "xs \<noteq> []"
  shows "split_lines (js_join [LF] xs @ [LF]) = concat (map split_lines xs) @ [[]]"
  using assms
proof (induction xs)
  case Nil
  then show ?case by simp
next
  case (Cons x xs)
  show ?case
  proof (cases xs)
    case Nil
    with Cons.prems show ?thesis by (simp add: split_lines_LF_end)
  next
    case (Cons y ys)
    then have "js_join [LF] (x # xs) @ [LF] = x @ LF # (js_join [LF] xs @ [LF])" by simp
    with Cons.prems Cons.IH Cons show ?thesis by (simp add: split_lines_append_LF)
  qed
qed

lemma plain_breaks_no_CR: "CR \<notin> set s \<Longrightarrow> plain_breaks s"
  by (induction s rule: plain_breaks.induct) auto

lemma split_lines_single: "LF \<notin> set s \<Longrightarrow> CR \<notin> set s \<Longrightarrow> split_lines s = [s]"
  by (induction s rule: split_lines.induct) auto

lemma neq_by_unat: "unat (a :: jschar) \<noteq> unat b \<Longrightarrow> a \<noteq> b"
  by blast

lemma digit_char:
  assumes "d < 10"
  shows "(0x30 + of_nat d :: jschar) \<noteq> CR" "(0x30 + of_nat d :: jschar) \<noteq> LF"
proof -
  have "(0x30 + of_nat d :: jschar) = of_nat (48 + d)" by simp
  then have "unat (0x30 + of_nat d :: jschar) = (48 + d) mod 2 ^ LENGTH(16)"
    by (simp only: unat_of_nat)
  with assms have u: "unat (0x30 + of_nat d :: jschar) = 48 + d" by simp
  have a: "unat (0x30 + of_nat d :: jschar) \<noteq> unat CR"
    and b: "unat (0x30 + of_nat d :: jschar) \<noteq> unat LF"
    unfolding u by simp_all
  from a show "(0x30 + of_nat d :: jschar) \<noteq> CR" by (rule neq_by_unat)
  from b show "(0x30 + of_nat d :: jschar) \<noteq> LF" by (rule neq_by_unat)
qed

lemma decimal_chars: "CR \<notin> set (decimal n) \<and> LF \<notin> set (decimal n)"
proof (induction n rule: decimal.induct)
  case (1 n)
  show ?case
  proof (cases "n < 10")
    case True
    then have "decimal n = [0x30 + of_nat n]" by (subst decimal.simps) simp
    with True show ?thesis by (simp add: digit_char)
  next
    case False
    then have "decimal n = decimal (n div 10) @ [0x30 + of_nat (n mod 10)]"
      by (subst decimal.simps) simp
    moreover have "n mod 10 < 10" by simp
    ultimately show ?thesis using False 1 by (simp add: digit_char)
  qed
qed

lemma TURN_OPEN_eq: "TURN_OPEN = [0x5B, 0x54, 0x75, 0x72, 0x6E, SP]"
  and TURN_CLOSE_eq: "TURN_CLOSE = [0x5D]"
  by (simp_all add: TURN_OPEN_def TURN_CLOSE_def js_def)

lemma turn_header_chars: "CR \<notin> set (turn_header i)" "LF \<notin> set (turn_header i)"
  using decimal_chars [of i] by (simp_all add: turn_header_def TURN_OPEN_eq TURN_CLOSE_eq)

lemma turn_header_shape: "startsWith (turn_header i) TURN_OPEN \<and> endsWith (turn_header i) TURN_CLOSE"
  by (simp add: startsWith_def endsWith_def turn_header_def suffix_def)

lemma js_trim_plain:
  "s \<noteq> [] \<Longrightarrow> \<not> is_space (hd s) \<Longrightarrow> \<not> is_space (last s) \<Longrightarrow> js_trim s = s"
proof -
  assume a: "s \<noteq> []" "\<not> is_space (hd s)" "\<not> is_space (last s)"
  then have 1: "dropWhile is_space s = s" by (cases s) auto
  from a have "rev s \<noteq> []" "\<not> is_space (hd (rev s))" by (simp_all add: hd_rev)
  then have "dropWhile is_space (rev s) = rev s" by (cases "rev s") auto
  with 1 show ?thesis by (simp add: js_trim_def)
qed

lemma marks_trim: "js_trim QUESTION_MARK = QUESTION_MARK" "js_trim ANSWER_MARK = ANSWER_MARK"
  by (rule js_trim_plain; simp add: QUESTION_MARK_def ANSWER_MARK_def is_space_def)+

lemma marks_distinct: "QUESTION_MARK \<noteq> ANSWER_MARK" "QUESTION_MARK \<noteq> []" "ANSWER_MARK \<noteq> []"
  by (simp_all add: QUESTION_MARK_def ANSWER_MARK_def)

lemma marks_not_turn: "\<not> startsWith QUESTION_MARK TURN_OPEN" "\<not> startsWith ANSWER_MARK TURN_OPEN"
  "\<not> startsWith [] TURN_OPEN"
  by (simp_all add: startsWith_def QUESTION_MARK_def ANSWER_MARK_def TURN_OPEN_eq)

lemma marks_chars: "CR \<notin> set QUESTION_MARK" "LF \<notin> set QUESTION_MARK"
  "CR \<notin> set ANSWER_MARK" "LF \<notin> set ANSWER_MARK"
  by (simp_all add: QUESTION_MARK_def ANSWER_MARK_def)

lemma empty_line_plain: "\<not> delimiter_line []"
  by (simp add: delimiter_line_def marks_not_turn js_trim_def marks_distinct [symmetric])

abbreviation run :: "qa_state \<Rightarrow> jsstring list \<Rightarrow> qa_state" where
  "run s ls \<equiv> fold (\<lambda>line s. parse_line s line) ls s"

lemma parse_line_header: "parse_line s (turn_header i) = (flush s)\<lparr>state := None\<rparr>"
  using turn_header_shape [of i] by (simp add: parse_line_def)

lemma parse_line_question: "parse_line s QUESTION_MARK = s\<lparr>state := Some Question\<rparr>"
  by (simp add: parse_line_def marks_not_turn marks_trim)

lemma parse_line_answer: "parse_line s ANSWER_MARK = s\<lparr>state := Some Answer\<rparr>"
  by (simp add: parse_line_def marks_not_turn marks_trim marks_distinct [symmetric])

lemma parse_line_plain:
  assumes "\<not> delimiter_line l"
  shows "state s = Some Question \<Longrightarrow> parse_line s l = s\<lparr>questionLines := questionLines s @ [l]\<rparr>"
    and "state s = Some Answer \<Longrightarrow> parse_line s l = s\<lparr>answerLines := answerLines s @ [l]\<rparr>"
    and "state s = None \<Longrightarrow> parse_line s l = s"
  using assms by (auto simp: parse_line_def delimiter_line_def)

lemma run_question:
  "state s = Some Question \<Longrightarrow> list_all (\<lambda>l. \<not> delimiter_line l) ls \<Longrightarrow>
   run s ls = s\<lparr>questionLines := questionLines s @ ls\<rparr>"
proof (induction ls arbitrary: s)
  case Nil
  then show ?case by simp
next
  case (Cons l ls)
  then have "parse_line s l = s\<lparr>questionLines := questionLines s @ [l]\<rparr>"
    by (simp add: parse_line_plain)
  with Cons.prems Cons.IH [of "s\<lparr>questionLines := questionLines s @ [l]\<rparr>"] show ?case
    by simp
qed

lemma run_answer:
  "state s = Some Answer \<Longrightarrow> list_all (\<lambda>l. \<not> delimiter_line l) ls \<Longrightarrow>
   run s ls = s\<lparr>answerLines := answerLines s @ ls\<rparr>"
proof (induction ls arbitrary: s)
  case Nil
  then show ?case by simp
next
  case (Cons l ls)
  then have "parse_line s l = s\<lparr>answerLines := answerLines s @ [l]\<rparr>"
    by (simp add: parse_line_plain)
  with Cons.prems Cons.IH [of "s\<lparr>answerLines := answerLines s @ [l]\<rparr>"] show ?case
    by simp
qed

lemma run_block:
  assumes "list_all (\<lambda>l. \<not> delimiter_line l) ql" "list_all (\<lambda>l. \<not> delimiter_line l) al"
  shows "run s ([turn_header i, QUESTION_MARK] @ ql @ [[], ANSWER_MARK] @ al @ [[]]) =
         \<lparr>pairs = pairs (flush s), questionLines = ql @ [[]], answerLines = al @ [[]],
          state = Some Answer\<rparr>"
proof -
  define s1 where "s1 = (flush s)\<lparr>state := Some Question\<rparr>"
  have f: "questionLines (flush s) = []" "answerLines (flush s) = []"
    by (simp_all add: flush_def Let_def)
  have 1: "run s [turn_header i, QUESTION_MARK] = s1"
    by (simp add: parse_line_header parse_line_question s1_def)
  have q: "list_all (\<lambda>l. \<not> delimiter_line l) (ql @ [[]])"
    using assms(1) by (simp add: empty_line_plain)
  have 2: "run s1 (ql @ [[]]) = s1\<lparr>questionLines := ql @ [[]]\<rparr>"
    using run_question [OF _ q, of s1] by (simp add: s1_def f)
  define s2 where "s2 = s1\<lparr>questionLines := ql @ [[]], state := Some Answer\<rparr>"
  have 3: "run (s1\<lparr>questionLines := ql @ [[]]\<rparr>) [ANSWER_MARK] = s2"
    by (simp add: parse_line_answer s2_def)
  have a: "list_all (\<lambda>l. \<not> delimiter_line l) (al @ [[]])"
    using assms(2) by (simp add: empty_line_plain)
  have 4: "run s2 (al @ [[]]) = s2\<lparr>answerLines := al @ [[]]\<rparr>"
    using run_answer [OF _ a, of s2] by (simp add: s2_def s1_def f)
  have "run s ([turn_header i, QUESTION_MARK] @ (ql @ [[]]) @ [ANSWER_MARK] @ (al @ [[]])) =
        run (run (run (run s [turn_header i, QUESTION_MARK]) (ql @ [[]])) [ANSWER_MARK]) (al @ [[]])"
    by (simp only: fold_append comp_def)
  also have "\<dots> = s2\<lparr>answerLines := al @ [[]]\<rparr>"
    by (simp only: 1 2 3 4)
  finally show ?thesis
    by (simp add: s2_def s1_def f)
qed

lemma strip_trailing_lf_snoc: "strip_trailing_lf (s @ [LF]) = strip_trailing_lf s"
  by (simp add: strip_trailing_lf_def)

lemma strip_trailing_lf_id: "s = [] \<or> last s \<noteq> LF \<Longrightarrow> strip_trailing_lf s = s"
proof (cases "s = []")
  case True
  then show ?thesis by (simp add: strip_trailing_lf_def)
next
  case False
  assume "s = [] \<or> last s \<noteq> LF"
  with False have "hd (rev s) \<noteq> LF" "rev s \<noteq> []" by (simp_all add: hd_rev)
  then have "dropWhile (\<lambda>c. c = LF) (rev s) = rev s" by (cases "rev s") auto
  then show ?thesis by (simp add: strip_trailing_lf_def)
qed

lemma safe_lines:
  assumes "round_trip_safe s"
  shows "plain_breaks s" "list_all (\<lambda>l. \<not> delimiter_line l) (split_lines s)"
    "strip_trailing_lf (js_join [LF] (split_lines s @ [[]])) = s"
    "strip_trailing_lf (js_join [LF] ((split_lines s @ [[]]) @ [[]])) = s"
proof -
  from assms show p: "plain_breaks s"
    by (auto simp: round_trip_safe_def plain_breaks_iff)
  from assms show "list_all (\<lambda>l. \<not> delimiter_line l) (split_lines s)"
    by (simp add: round_trip_safe_def no_delimiter_line_def)
  have j: "js_join [LF] (split_lines s @ [[]]) = s @ [LF]"
    using split_lines_nonempty [of s] p by (simp add: js_join_snoc join_split_lines)
  from assms have e: "s = [] \<or> last s \<noteq> LF" by (auto simp: round_trip_safe_def)
  then show "strip_trailing_lf (js_join [LF] (split_lines s @ [[]])) = s"
    unfolding j by (simp add: strip_trailing_lf_snoc strip_trailing_lf_id)
  have "js_join [LF] ((split_lines s @ [[]]) @ [[]]) = js_join [LF] (split_lines s @ [[]]) @ [LF] @ []"
    by (rule js_join_snoc) simp
  then have "js_join [LF] ((split_lines s @ [[]]) @ [[]]) = (s @ [LF]) @ [LF]"
    unfolding j by simp
  with e show "strip_trailing_lf (js_join [LF] ((split_lines s @ [[]]) @ [[]])) = s"
    by (simp only: strip_trailing_lf_snoc strip_trailing_lf_id)
qed

lemma turn_lines_split:
  assumes "round_trip_safe q" "round_trip_safe a"
  shows "concat (map split_lines (turn_lines i ((q, a) # ps))) =
         ([turn_header (i + 1), QUESTION_MARK] @ split_lines q @ [[], ANSWER_MARK] @ split_lines a @ [[]]) @
         concat (map split_lines (turn_lines (i + 1) ps))"
  by (simp add: split_lines_single turn_header_chars marks_chars)

lemma run_turns:
  assumes "\<forall>(q, a) \<in> set ps. round_trip_safe q \<and> round_trip_safe a" "ps \<noteq> []"
  shows "pairs (flush (run s (concat (map split_lines (turn_lines i ps)) @ [[]]))) =
         pairs (flush s) @ ps"
  using assms
proof (induction ps arbitrary: s i)
  case Nil
  then show ?case by simp
next
  case (Cons p ps)
  obtain q a where p: "p = (q, a)" by (cases p)
  with Cons.prems have safe: "round_trip_safe q" "round_trip_safe a" by auto
  define s1 :: qa_state where "s1 = \<lparr>pairs = pairs (flush s), questionLines = split_lines q @ [[]],
      answerLines = split_lines a @ [[]], state = Some Answer\<rparr>"
  define blk where "blk = [turn_header (i + 1), QUESTION_MARK] @ split_lines q @ [[], ANSWER_MARK] @
      split_lines a @ [[]]"
  have blk: "run s blk = s1"
    unfolding s1_def blk_def using safe_lines(2) [OF safe(1)] safe_lines(2) [OF safe(2)]
    by (rule run_block)
  have "concat (map split_lines (turn_lines i (p # ps))) @ [[]] =
      blk @ (concat (map split_lines (turn_lines (i + 1) ps)) @ [[]])"
    unfolding p turn_lines_split [OF safe] blk_def by (simp only: append_assoc)
  then have all: "run s (concat (map split_lines (turn_lines i (p # ps))) @ [[]]) =
      run s1 (concat (map split_lines (turn_lines (i + 1) ps)) @ [[]])"
    by (simp only: fold_append comp_def blk)
  have f1: "pairs (flush s1) = pairs (flush s) @ [(q, a)]"
    using safe_lines(3) [OF safe(1)] safe_lines(3) [OF safe(2)]
    by (simp add: flush_def s1_def)
  show ?case
  proof (cases ps)
    case Nil
    have "run s1 [[]] = s1\<lparr>answerLines := (split_lines a @ [[]]) @ [[]]\<rparr>"
      by (simp add: parse_line_plain(2) empty_line_plain s1_def)
    then have "pairs (flush (run s1 [[]])) = pairs (flush s) @ [(q, a)]"
      using safe_lines(3) [OF safe(1)] safe_lines(4) [OF safe(2)]
      by (simp add: flush_def s1_def)
    with all Nil p show ?thesis by simp
  next
    case (Cons p' ps')
    with Cons.prems have "\<forall>(q, a) \<in> set ps. round_trip_safe q \<and> round_trip_safe a" "ps \<noteq> []"
      by auto
    from Cons.IH [OF this, where s = s1 and i = "i + 1"] all f1 p show ?thesis by simp
  qed
qed

lemma turn_lines_plain:
  "\<forall>(q, a) \<in> set ps. round_trip_safe q \<and> round_trip_safe a \<Longrightarrow>
   \<forall>x \<in> set (turn_lines i ps). plain_breaks x"
proof (induction ps arbitrary: i)
  case Nil
  then show ?case by simp
next
  case (Cons p ps)
  obtain q a where p: "p = (q, a)" by (cases p)
  with Cons.prems have "plain_breaks q" "plain_breaks a" by (auto intro: safe_lines(1))
  moreover have "plain_breaks (turn_header (i + 1))" "plain_breaks QUESTION_MARK" "plain_breaks ANSWER_MARK"
    by (simp_all add: plain_breaks_no_CR turn_header_chars marks_chars)
  ultimately show ?case using Cons p by simp
qed

text \<open>
  C1. For every sequence of pairs of strings none of which contains a delimiter-shaped
  line, contains a carriage return immediately before a line feed, or ends with a line
  feed or a carriage return, parsing the text written by the formatter gives the sequence
  back.
\<close>

theorem C1_parse_format_round_trip:
  assumes "\<forall>(q, a) \<in> set pairs_in. round_trip_safe q \<and> round_trip_safe a"
  shows "parseQaText (formatQaText pairs_in) = pairs_in"
proof (cases "pairs_in = []")
  case True
  have "split_lines [LF] = [[], []]" by simp
  moreover have "parse_line s [] = s" if "state s = None" for s
    using that by (simp add: parse_line_plain(3) empty_line_plain)
  ultimately show ?thesis
    using True by (simp add: parseQaText_def formatQaText_def flush_def)
next
  case False
  then have ne: "turn_lines 0 pairs_in \<noteq> []" by (cases pairs_in) auto
  have "split_lines (formatQaText pairs_in) = concat (map split_lines (turn_lines 0 pairs_in)) @ [[]]"
    unfolding formatQaText_def using turn_lines_plain [OF assms] ne by (rule split_lines_join)
  then show ?thesis
    unfolding parseQaText_def using run_turns [OF assms False] by (simp add: flush_def)
qed

lemma letter_line: "\<not> delimiter_line [0x61]" "\<not> delimiter_line [0x62]" "\<not> delimiter_line [0x63]"
  by (simp_all add: delimiter_line_def startsWith_def TURN_OPEN_eq js_trim_def is_space_def
      QUESTION_MARK_def ANSWER_MARK_def)

theorem C1_parse_format_round_trip_witness:
  "round_trip_safe [0x61] \<and> round_trip_safe [0x62, LF, 0x63] \<and>
   parseQaText (formatQaText [([0x61], [0x62, LF, 0x63])]) = [([0x61], [0x62, LF, 0x63])]"
proof -
  have s: "round_trip_safe [0x61]" "round_trip_safe [0x62, LF, 0x63]"
    by (simp_all add: round_trip_safe_def no_delimiter_line_def letter_line sublist_Cons_right)
  then have h: "\<forall>(q, a) \<in> set [([0x61], [0x62, LF, 0x63])]. round_trip_safe q \<and> round_trip_safe a"
    by simp
  from s C1_parse_format_round_trip [OF h] show ?thesis by simp
qed

text \<open>
  A question that ends with a line feed holds no delimiter-shaped line, and the parser
  returns it without the line feed.
\<close>

theorem C1_trailing_line_feed_counterexample:
  "no_delimiter_line [0x61, LF] \<and> no_delimiter_line [0x62] \<and>
   parseQaText (formatQaText [([0x61, LF], [0x62])]) = [([0x61], [0x62])]"
proof -
  have n: "no_delimiter_line [0x61, LF]" "no_delimiter_line [0x62]"
    by (simp_all add: no_delimiter_line_def letter_line empty_line_plain)
  have l: "split_lines (formatQaText [([0x61, LF], [0x62])]) =
      [turn_header 1, QUESTION_MARK] @ [[0x61], [], []] @ [ANSWER_MARK] @ [[0x62], [], []]"
  proof -
    have "split_lines (formatQaText [([0x61, LF], [0x62])]) =
        concat (map split_lines (turn_lines 0 [([0x61, LF], [0x62])])) @ [[]]"
      unfolding formatQaText_def
      by (rule split_lines_join) (simp_all add: plain_breaks_no_CR turn_header_chars marks_chars)
    then show ?thesis
      by (simp add: split_lines_single turn_header_chars marks_chars)
  qed
  define s0 :: qa_state where "s0 = \<lparr>pairs = [], questionLines = [], answerLines = [], state = None\<rparr>"
  define s1 where "s1 = (flush s0)\<lparr>state := Some Question\<rparr>"
  define s2 where "s2 = s1\<lparr>questionLines := questionLines s1 @ [[0x61], [], []], state := Some Answer\<rparr>"
  have 1: "run s0 [turn_header 1, QUESTION_MARK] = s1"
    by (simp add: parse_line_header parse_line_question s1_def)
  have 2: "run s1 [[0x61], [], []] = s1\<lparr>questionLines := questionLines s1 @ [[0x61], [], []]\<rparr>"
    by (rule run_question) (simp_all add: s1_def letter_line empty_line_plain)
  have 3: "run (s1\<lparr>questionLines := questionLines s1 @ [[0x61], [], []]\<rparr>) [ANSWER_MARK] = s2"
    by (simp add: parse_line_answer s2_def)
  have 4: "run s2 [[0x62], [], []] = s2\<lparr>answerLines := answerLines s2 @ [[0x62], [], []]\<rparr>"
    by (rule run_answer) (simp_all add: s2_def letter_line empty_line_plain)
  have "run s0 ([turn_header 1, QUESTION_MARK] @ [[0x61], [], []] @ [ANSWER_MARK] @ [[0x62], [], []]) =
      run (run (run (run s0 [turn_header 1, QUESTION_MARK]) [[0x61], [], []]) [ANSWER_MARK]) [[0x62], [], []]"
    by (simp only: fold_append comp_def)
  also have "\<dots> = s2\<lparr>answerLines := answerLines s2 @ [[0x62], [], []]\<rparr>"
    by (simp only: 1 2 3 4)
  finally have "parseQaText (formatQaText [([0x61, LF], [0x62])]) =
      pairs (flush (s2\<lparr>answerLines := answerLines s2 @ [[0x62], [], []]\<rparr>))"
    unfolding parseQaText_def l s0_def by simp
  also have "\<dots> = [([0x61], [0x62])]"
    by (simp add: flush_def s2_def s1_def s0_def strip_trailing_lf_def)
  finally show ?thesis using n by simp
qed

section \<open>The Markdown cleanup: idempotence\<close>

subsection \<open>Lines\<close>

lemma split_lf_nonempty: "split_lf s \<noteq> []"
  by (induction s) (auto split: list.splits)

lemma split_lf_sublist: "l \<in> set (split_lf s) \<Longrightarrow> sublist l s"
proof (induction s arbitrary: l)
  case Nil
  then show ?case by simp
next
  case (Cons c r)
  show ?case
  proof (cases "c = LF")
    case True
    with Cons.prems have "l = [] \<or> l \<in> set (split_lf r)" by auto
    with Cons.IH show ?thesis by (auto intro: sublist_Cons_right [THEN iffD2])
  next
    case False
    obtain l0 ls where e: "split_lf r = l0 # ls"
      using split_lf_nonempty [of r] by (cases "split_lf r") auto
    with False Cons.prems consider "l = c # l0" | "l \<in> set ls" by auto
    then show ?thesis
    proof cases
      case 1
      have "prefix l0 r"
        using e
      proof (induction r arbitrary: l0 ls)
        case Nil
        then show ?case by simp
      next
        case (Cons d r')
        then show ?case
          using split_lf_nonempty [of r'] by (cases "split_lf r'") (auto split: if_splits)
      qed
      with 1 have "prefix l (c # r)" by simp
      then show ?thesis by (rule prefix_imp_sublist)
    next
      case 2
      with e Cons.IH have "sublist l r" by simp
      then show ?thesis by (simp add: sublist_Cons_right)
    qed
  qed
qed

lemma join_split_lf: "js_join [LF] (split_lf s) = s"
proof (induction s)
  case Nil
  then show ?case by simp
next
  case (Cons c r)
  obtain l0 ls where e: "split_lf r = l0 # ls"
    using split_lf_nonempty [of r] by (cases "split_lf r") auto
  show ?case
  proof (cases "c = LF")
    case True
    with Cons e show ?thesis by (simp add: js_join_Cons)
  next
    case False
    with Cons e show ?thesis by (cases ls) auto
  qed
qed

subsection \<open>The code units of each pass\<close>

lemma crlf_to_lf_id: "CR \<notin> set s \<Longrightarrow> crlf_to_lf s = s"
  by (induction s rule: crlf_to_lf.induct) auto

lemma norm_breaks_no_CR: "CR \<notin> set (norm_breaks s)"
  by (auto simp: norm_breaks_def)

lemma norm_breaks_id: "CR \<notin> set s \<Longrightarrow> norm_breaks s = s"
  by (simp add: norm_breaks_def crlf_to_lf_id) (induction s; auto)

lemma set_strip_blank_before_lf: "set (strip_blank_before_lf s) \<subseteq> set s"
  by (induction s rule: strip_blank_before_lf.induct) (auto dest: set_dropWhileD)

lemma set_collapse_lf: "set (collapse_lf s) \<subseteq> set s"
  by (induction s rule: collapse_lf.induct) auto

lemma clean_lines_cases:
  "l \<in> set (clean_lines ls) \<Longrightarrow>
     l = [] \<or> (\<exists>k \<in> set ls. l = js_trim k \<and> l \<noteq> [] \<and> \<not> dropped_line l)"
  by (induction ls) (auto simp: Let_def split: if_splits)

subsection \<open>Adjacent spaces and tabs\<close>

lemma not_blank_LF: "\<not> is_blank LF"
  by (simp add: is_blank_def)

lemma blank_space: "is_blank c \<Longrightarrow> is_space c"
  by (auto simp: is_blank_def is_space_def)

lemma no_blank_pair_iff:
  "no_blank_pair s \<longleftrightarrow> (\<forall>a b. sublist [a, b] s \<longrightarrow> \<not> (is_blank a \<and> is_blank b))"
  by (induction s rule: no_blank_pair.induct) (auto simp: sublist_Cons_right)

lemma no_blank_pair_sublist: "sublist t s \<Longrightarrow> no_blank_pair s \<Longrightarrow> no_blank_pair t"
  unfolding no_blank_pair_iff by (meson sublist_order.order.trans)

lemma no_blank_pair_Cons:
  "no_blank_pair (c # s) \<longleftrightarrow> no_blank_pair s \<and> (s \<noteq> [] \<longrightarrow> \<not> (is_blank c \<and> is_blank (hd s)))"
  by (cases s) auto

lemma no_blank_pair_append_LF:
  "no_blank_pair (x @ LF # y) \<longleftrightarrow> no_blank_pair x \<and> no_blank_pair y"
  by (induction x) (auto simp: no_blank_pair_Cons not_blank_LF hd_append)

lemma hd_collapse_lf: "hd (collapse_lf s) = LF \<or> hd (collapse_lf s) = hd s"
  by (induction s rule: collapse_lf.induct) auto

lemma no_blank_pair_collapse_lf: "no_blank_pair s \<Longrightarrow> no_blank_pair (collapse_lf s)"
proof (induction s rule: collapse_lf.induct)
  case (1 a b c r)
  show ?case
  proof (cases "a = LF \<and> b = LF \<and> c = LF")
    case True
    with 1 show ?thesis by simp
  next
    case False
    with 1 have "no_blank_pair (collapse_lf (b # c # r))" by simp
    moreover have "\<not> (is_blank a \<and> is_blank (hd (collapse_lf (b # c # r))))"
      using hd_collapse_lf [of "b # c # r"] "1.prems" by (auto simp: not_blank_LF)
    ultimately show ?thesis using False by (auto simp: no_blank_pair_Cons)
  qed
qed simp_all

lemma collapse_blanks_id: "no_blank_pair s \<Longrightarrow> collapse_blanks s = s"
  by (induction s) (auto simp: no_blank_pair_Cons)

subsection \<open>Runs of line feeds\<close>

lemma collapse_lf_other: "a \<noteq> LF \<Longrightarrow> collapse_lf (a # t) = a # collapse_lf t"
proof (cases t)
  case Nil
  then show ?thesis by simp
next
  case (Cons b t')
  assume "a \<noteq> LF"
  with Cons show ?thesis by (cases t') auto
qed

lemma collapse_lf_LF_other: "c \<noteq> LF \<Longrightarrow> collapse_lf (LF # c # r) = LF # c # collapse_lf r"
  by (cases r) (simp_all add: collapse_lf_other)

lemma collapse_lf_no_triple: "\<not> sublist [LF, LF, LF] (collapse_lf s)"
proof (induction s rule: collapse_lf.induct)
  case (1 a b c r)
  show ?case
  proof (cases "a = LF \<and> b = LF \<and> c = LF")
    case True
    with 1 show ?thesis by simp
  next
    case False
    with 1 have ih: "\<not> sublist [LF, LF, LF] (collapse_lf (b # c # r))" by simp
    have "\<not> prefix [LF, LF, LF] (a # collapse_lf (b # c # r))"
    proof (cases "a = LF")
      case a: True
      show ?thesis
      proof (cases "b = LF")
        case True
        with a False have "c \<noteq> LF" by simp
        with True show ?thesis by (simp add: collapse_lf_LF_other)
      next
        case False
        then show ?thesis by (simp add: collapse_lf_other)
      qed
    next
      case False
      then show ?thesis by simp
    qed
    with ih False show ?thesis by (auto simp: sublist_Cons_right)
  qed
qed (auto simp: sublist_Cons_right)

lemma collapse_lf_id: "\<not> sublist [LF, LF, LF] s \<Longrightarrow> collapse_lf s = s"
  by (induction s rule: collapse_lf.induct) (auto simp: sublist_Cons_right)

subsection \<open>Trimmed lines\<close>

lemma split_lf_snoc_LF: "split_lf (s @ [LF]) = split_lf s @ [[]]"
proof (induction s)
  case Nil
  then show ?case by simp
next
  case (Cons d r)
  obtain l ls where e: "split_lf r = l # ls"
    using split_lf_nonempty [of r] by (cases "split_lf r") auto
  with Cons show ?case by simp
qed

definition trimmed_lines :: "jsstring \<Rightarrow> bool" where
  "trimmed_lines s \<longleftrightarrow> (\<forall>l \<in> set (split_lf s). js_trim l = l)"

text \<open>No space or tab stands before a line feed when no line ends with one.\<close>

definition right_trimmed :: "jsstring \<Rightarrow> bool" where
  "right_trimmed s \<longleftrightarrow> (\<forall>l \<in> set (split_lf s). l = [] \<or> \<not> is_blank (last l))"

lemma trimmed_lines_right: "trimmed_lines s \<Longrightarrow> right_trimmed s"
  unfolding trimmed_lines_def right_trimmed_def js_trim_fixed_iff
  using blank_space by blast

lemma right_trimmed_Cons: "right_trimmed (c # r) \<Longrightarrow> right_trimmed r"
proof (cases "c = LF")
  case True
  assume "right_trimmed (c # r)"
  then show ?thesis using True by (simp add: right_trimmed_def)
next
  case False
  assume a: "right_trimmed (c # r)"
  obtain l ls where e: "split_lf r = l # ls"
    using split_lf_nonempty [of r] by (cases "split_lf r") auto
  from a False e have 1: "\<not> is_blank (last (c # l))"
    and 2: "\<forall>k \<in> set ls. k = [] \<or> \<not> is_blank (last k)"
    by (simp_all add: right_trimmed_def)
  from 1 have "l = [] \<or> \<not> is_blank (last l)" by (cases l) auto
  with 2 e show ?thesis by (simp add: right_trimmed_def)
qed

lemma blank_run_end:
  "right_trimmed (c # r) \<Longrightarrow> is_blank c \<Longrightarrow>
     dropWhile is_blank r \<noteq> [] \<and> hd (dropWhile is_blank r) \<noteq> LF"
proof (induction r arbitrary: c)
  case Nil
  then have "c \<noteq> LF" by (auto simp: not_blank_LF)
  with Nil show ?case by (simp add: right_trimmed_def)
next
  case (Cons d r)
  from Cons.prems(2) have c: "c \<noteq> LF" by (auto simp: not_blank_LF)
  show ?case
  proof (cases "is_blank d")
    case True
    from Cons.prems(1) have "right_trimmed (d # r)" by (rule right_trimmed_Cons)
    from Cons.IH [OF this True] True show ?thesis by simp
  next
    case False
    show ?thesis
    proof (cases "d = LF")
      case True
      with c Cons.prems show ?thesis by (simp add: right_trimmed_def)
    next
      case d: False
      with False show ?thesis by simp
    qed
  qed
qed

lemma strip_blank_before_lf_right: "right_trimmed s \<Longrightarrow> strip_blank_before_lf s = s"
proof (induction s)
  case Nil
  then show ?case by simp
next
  case (Cons c r)
  from Cons.prems have "right_trimmed r" by (rule right_trimmed_Cons)
  with Cons.IH have "strip_blank_before_lf r = r" by simp
  moreover have "\<not> (is_blank c \<and> dropWhile is_blank r \<noteq> [] \<and> hd (dropWhile is_blank r) = LF)"
    using blank_run_end [OF Cons.prems] by auto
  ultimately show ?case by auto
qed

lemma strip_blank_before_lf_id: "trimmed_lines s \<Longrightarrow> strip_blank_before_lf s = s"
  by (intro strip_blank_before_lf_right trimmed_lines_right)

subsection \<open>The later passes: code units and adjacent blanks\<close>

lemma set_strip_domains: "set (strip_domains prev s) \<subseteq> set s"
proof (induction prev s rule: strip_domains.induct)
  case (1 prev)
  then show ?case by simp
next
  case (2 prev c r)
  show ?case
  proof (cases "match_domain prev (c # r)")
    case None
    with 2 show ?thesis by auto
  next
    case (Some n)
    show ?thesis
    proof (cases "n = 0")
      case True
      with Some 2 show ?thesis by auto
    next
      case False
      with Some 2 have "set (strip_domains prev (c # r)) \<subseteq> set (drop n (c # r))" by simp
      then show ?thesis using set_drop_subset [of n "c # r"] by blast
    qed
  qed
qed

lemma set_collapse_blanks: "set (collapse_blanks s) \<subseteq> insert SP (set s)"
  by (induction s rule: collapse_blanks.induct) (auto dest: set_dropWhileD)

lemma hd_collapse_blanks:
  "collapse_blanks s \<noteq> [] \<Longrightarrow> is_blank (hd (collapse_blanks s)) \<Longrightarrow> s \<noteq> [] \<and> is_blank (hd s)"
  by (cases s) (auto split: if_splits)

lemma no_blank_pair_collapse_blanks: "no_blank_pair (collapse_blanks s)"
proof (induction s rule: collapse_blanks.induct)
  case 1
  then show ?case by simp
next
  case (2 c r)
  show ?case
  proof (cases "is_blank c \<and> r \<noteq> [] \<and> is_blank (hd r)")
    case True
    define t where "t = dropWhile is_blank r"
    have "\<not> (t \<noteq> [] \<and> is_blank (hd t))"
      unfolding t_def using hd_dropWhile [of is_blank r] by auto
    then have "\<not> (collapse_blanks t \<noteq> [] \<and> is_blank (hd (collapse_blanks t)))"
      using hd_collapse_blanks [of t] by blast
    moreover from True 2 have "no_blank_pair (collapse_blanks t)" by (simp add: t_def)
    ultimately show ?thesis using True by (auto simp: no_blank_pair_Cons t_def)
  next
    case False
    with 2 have ih: "no_blank_pair (collapse_blanks r)" by simp
    have "\<not> (is_blank c \<and> collapse_blanks r \<noteq> [] \<and> is_blank (hd (collapse_blanks r)))"
      using False hd_collapse_blanks [of r] by blast
    with ih False show ?thesis by (auto simp: no_blank_pair_Cons)
  qed
qed

subsection \<open>No pass makes a text longer\<close>

lemma length_strip_blank_before_lf: "length (strip_blank_before_lf s) \<le> length s"
proof (induction s rule: strip_blank_before_lf.induct)
  case 1
  then show ?case by simp
next
  case (2 c r)
  show ?case
  proof (cases "is_blank c \<and> dropWhile is_blank r \<noteq> [] \<and> hd (dropWhile is_blank r) = LF")
    case True
    with 2 have "length (strip_blank_before_lf (c # r)) \<le> length (dropWhile is_blank r)" by simp
    also have "\<dots> \<le> length r" by (rule length_dropWhile_le)
    finally show ?thesis by simp
  next
    case False
    with 2 show ?thesis by auto
  qed
qed

lemma strip_blank_before_lf_same_length:
  "length (strip_blank_before_lf s) = length s \<Longrightarrow> strip_blank_before_lf s = s"
proof (induction s rule: strip_blank_before_lf.induct)
  case 1
  then show ?case by simp
next
  case (2 c r)
  show ?case
  proof (cases "is_blank c \<and> dropWhile is_blank r \<noteq> [] \<and> hd (dropWhile is_blank r) = LF")
    case True
    then have "length (strip_blank_before_lf (c # r)) \<le> length (dropWhile is_blank r)"
      using length_strip_blank_before_lf [of "dropWhile is_blank r"] by simp
    also have "\<dots> \<le> length r" by (rule length_dropWhile_le)
    finally show ?thesis using "2.prems" by simp
  next
    case False
    with 2 show ?thesis by auto
  qed
qed

lemma length_collapse_lf: "length (collapse_lf s) \<le> length s"
  by (induction s rule: collapse_lf.induct) auto

lemma length_collapse_blanks: "length (collapse_blanks s) \<le> length s"
proof (induction s rule: collapse_blanks.induct)
  case 1
  then show ?case by simp
next
  case (2 c r)
  show ?case
  proof (cases "is_blank c \<and> r \<noteq> [] \<and> is_blank (hd r)")
    case True
    with 2 have "length (collapse_blanks (c # r)) \<le> Suc (length (dropWhile is_blank r))" by simp
    also have "\<dots> \<le> Suc (length r)" using length_dropWhile_le [of is_blank r] by simp
    finally show ?thesis by simp
  next
    case False
    with 2 show ?thesis by auto
  qed
qed

lemma sublist_same_length: "sublist xs ys \<Longrightarrow> length xs = length ys \<Longrightarrow> xs = ys"
  by (auto simp: sublist_def)

lemma length_js_trim: "length (js_trim s) \<le> length s"
proof -
  from js_trim_sublist [of s] obtain ps ss where "s = ps @ js_trim s @ ss"
    by (auto simp: sublist_def)
  then have "length s = length ps + length (js_trim s) + length ss"
    by (metis length_append add.assoc)
  then show ?thesis by simp
qed

lemma js_trim_same_length: "length (js_trim s) = length s \<Longrightarrow> js_trim s = s"
  using js_trim_sublist [of s] by (rule sublist_same_length)


subsection \<open>The removal of domain names\<close>

lemma first_tld_ge: "first_tld s qs = Some e \<Longrightarrow> 2 \<le> e"
  by (induction qs) (auto simp: tld_end_def Let_def split: option.splits if_splits)

lemma match_domain_ge: "match_domain prev s = Some n \<Longrightarrow> 2 \<le> n"
  by (auto simp: match_domain_def first_tld_ge split: if_splits)

lemma length_strip_domains: "length (strip_domains prev s) \<le> length s"
proof (induction prev s rule: strip_domains.induct)
  case (1 prev)
  then show ?case by simp
next
  case (2 prev c r)
  show ?case
  proof (cases "match_domain prev (c # r)")
    case None
    with 2 show ?thesis by auto
  next
    case (Some n)
    then have "n \<noteq> 0" using match_domain_ge by fastforce
    with Some 2 have "length (strip_domains prev (c # r)) \<le> length (drop n (c # r))" by simp
    then show ?thesis by simp
  qed
qed

lemma strip_domains_same_length:
  "length (strip_domains prev s) = length s \<Longrightarrow> domain_free prev s"
proof (induction s arbitrary: prev)
  case Nil
  then show ?case by simp
next
  case (Cons c r)
  show ?case
  proof (cases "match_domain prev (c # r)")
    case None
    with Cons show ?thesis by simp
  next
    case (Some n)
    then have n: "2 \<le> n" by (rule match_domain_ge)
    then have "strip_domains prev (c # r) =
        strip_domains (Some ((c # r) ! (n - 1))) (drop n (c # r))"
      using Some by simp
    then have "length (strip_domains prev (c # r)) \<le> length (drop n (c # r))"
      by (simp only: length_strip_domains)
    also have "\<dots> < length (c # r)" using n by simp
    finally show ?thesis using Cons.prems by simp
  qed
qed

lemma strip_domains_free: "domain_free prev s \<Longrightarrow> strip_domains prev s = s"
  by (induction s arbitrary: prev) simp_all

subsection \<open>The loop over the lines\<close>

text \<open>The length of the joined lines, counted with one line feed for each line.\<close>

definition weight :: "jsstring list \<Rightarrow> nat" where
  "weight ls = sum_list (map length ls) + length ls"

lemma length_joined: "ls \<noteq> [] \<Longrightarrow> Suc (length (js_join [LF] ls)) = weight ls"
proof (induction ls)
  case Nil
  then show ?case by simp
next
  case (Cons l ls)
  then show ?case by (cases ls) (simp_all add: weight_def)
qed

lemma weight_clean_lines: "weight (clean_lines ls) \<le> weight ls"
proof (induction ls)
  case Nil
  then show ?case by simp
next
  case (Cons l ls)
  have "length (js_trim l) \<le> length l" by (rule length_js_trim)
  with Cons show ?case by (auto simp: weight_def Let_def)
qed

lemma weight_clean_lines_same:
  "weight (clean_lines ls) = weight ls \<Longrightarrow> list_all kept_line ls"
proof (induction ls)
  case Nil
  then show ?case by simp
next
  case (Cons l ls)
  have t: "length (js_trim l) \<le> length l" by (rule length_js_trim)
  have w: "weight (clean_lines ls) \<le> weight ls" by (rule weight_clean_lines)
  have c: "weight (x # xs) = length x + 1 + weight xs" for x :: jsstring and xs
    by (simp add: weight_def)
  show ?case
  proof (cases "js_trim l = []")
    case True
    with Cons.prems have "weight (clean_lines ls) + 1 = length l + 1 + weight ls"
      by (simp add: c)
    with w have "l = []" "weight (clean_lines ls) = weight ls" by simp_all
    with Cons.IH show ?thesis by (simp add: kept_line_def)
  next
    case False
    show ?thesis
    proof (cases "dropped_line (js_trim l)")
      case True
      with False Cons.prems have "weight (clean_lines ls) = length l + 1 + weight ls"
        by (simp add: c)
      with w show ?thesis by simp
    next
      case nd: False
      with False Cons.prems
      have "length (js_trim l) + 1 + weight (clean_lines ls) = length l + 1 + weight ls"
        by (simp add: c)
      with w t have "length (js_trim l) = length l" "weight (clean_lines ls) = weight ls"
        by simp_all
      then have "js_trim l = l" "list_all kept_line ls"
        using Cons.IH by (simp_all add: js_trim_same_length)
      with nd have "kept_line l" by (simp add: kept_line_def)
      with \<open>list_all kept_line ls\<close> show ?thesis by simp
    qed
  qed
qed

lemma clean_lines_Nil_iff: "clean_lines ls = [] \<Longrightarrow> \<forall>l \<in> set ls. l \<noteq> []"
  by (induction ls) (auto simp: Let_def js_trim_Nil split: if_splits)

lemma length_joined_clean_lines:
  "length (js_join [LF] (clean_lines ls)) \<le> length (js_join [LF] ls)"
proof (cases "clean_lines ls = []")
  case True
  then show ?thesis by simp
next
  case False
  then have "ls \<noteq> []" by auto
  with False length_joined [of ls] length_joined [of "clean_lines ls"] weight_clean_lines [of ls]
  show ?thesis by simp
qed

lemma joined_clean_lines_same:
  assumes "length (js_join [LF] (clean_lines ls)) = length (js_join [LF] ls)" and "ls \<noteq> []"
  shows "list_all kept_line ls"
proof (cases "clean_lines ls = []")
  case True
  with assms(1) have "length (js_join [LF] ls) = 0" by simp
  with length_joined [OF assms(2)] have "weight ls = 1" by simp
  moreover from True have "\<forall>l \<in> set ls. l \<noteq> []" by (rule clean_lines_Nil_iff)
  then have "2 \<le> weight ls" using assms(2) by (cases ls) (auto simp: weight_def Suc_le_eq)
  ultimately show ?thesis by simp
next
  case False
  with assms length_joined [of ls] length_joined [of "clean_lines ls"]
  have "weight (clean_lines ls) = weight ls" by simp
  then show ?thesis by (rule weight_clean_lines_same)
qed

subsection \<open>The cleaned text\<close>

lemma kept_line_trimmed: "kept_line l \<Longrightarrow> js_trim l = l"
  by (auto simp: kept_line_def js_trim_Nil)

lemma clean_lines_id: "list_all kept_line ls \<Longrightarrow> clean_lines ls = ls"
  by (induction ls) (auto simp: kept_line_def js_trim_Nil)

lemma kept_lines_trimmed: "list_all kept_line (split_lf s) \<Longrightarrow> trimmed_lines s"
  by (simp add: trimmed_lines_def list_all_iff kept_line_trimmed)

lemma set_clean_lines:
  assumes "l \<in> set (clean_lines (split_lf s))"
  shows "set l \<subseteq> set s"
proof -
  from clean_lines_cases [OF assms] consider "l = []"
    | k where "k \<in> set (split_lf s)" "l = js_trim k" by auto
  then show ?thesis
  proof cases
    case 1
    then show ?thesis by simp
  next
    case 2
    from 2(1) have "set k \<subseteq> set s" by (intro set_mono_sublist split_lf_sublist)
    then show ?thesis using set_js_trim [of k] 2(2) by auto
  qed
qed

lemma set_joined_lines: "set (js_join [LF] (clean_lines (split_lf s))) \<subseteq> insert LF (set s)"
  using set_js_join [of "[LF]" "clean_lines (split_lf s)"] set_clean_lines [of _ s]
  by auto

text \<open>What every cleaned text is like.\<close>

lemma clean_result:
  shows "CR \<notin> set (cleanGlmMarkdown x)" and "no_blank_pair (cleanGlmMarkdown x)"
    and "\<not> sublist [LF, LF, LF] (cleanGlmMarkdown x)"
    and "js_trim (cleanGlmMarkdown x) = cleanGlmMarkdown x"
proof -
  define w where "w = collapse_lf (strip_blank_before_lf (norm_breaks x))"
  define z where "z = js_join [LF] (clean_lines (split_lf w))"
  define u where "u = collapse_blanks (strip_domains None z)"
  have e: "cleanGlmMarkdown x = js_trim (collapse_lf u)"
    by (simp add: cleanGlmMarkdown_def Let_def w_def z_def u_def)
  have "set w \<subseteq> set (norm_breaks x)"
    unfolding w_def using set_collapse_lf set_strip_blank_before_lf by blast
  with norm_breaks_no_CR [of x] have "CR \<notin> set w" by auto
  then have "CR \<notin> set z" unfolding z_def using set_joined_lines [of w] by auto
  then have "CR \<notin> set u"
    unfolding u_def using set_collapse_blanks [of "strip_domains None z"] set_strip_domains [of None z]
    by auto
  then show "CR \<notin> set (cleanGlmMarkdown x)"
    unfolding e using set_js_trim [of "collapse_lf u"] set_collapse_lf [of u] by auto
  have "no_blank_pair (collapse_lf u)"
    unfolding u_def by (intro no_blank_pair_collapse_lf no_blank_pair_collapse_blanks)
  then show "no_blank_pair (cleanGlmMarkdown x)"
    unfolding e using js_trim_sublist by (blast intro: no_blank_pair_sublist)
  show "\<not> sublist [LF, LF, LF] (cleanGlmMarkdown x)"
    unfolding e using js_trim_sublist [of "collapse_lf u"] collapse_lf_no_triple [of u]
    by (meson sublist_order.order.trans)
  show "js_trim (cleanGlmMarkdown x) = cleanGlmMarkdown x"
    unfolding e by (rule js_trim_idem)
qed

text \<open>On a settled text that is like a cleaned one every pass leaves the text as it is,
  up to the trim at the end.\<close>

lemma clean_settled:
  assumes "CR \<notin> set s" and "no_blank_pair s" and "\<not> sublist [LF, LF, LF] s" and "settled s"
  shows "cleanGlmMarkdown s = js_trim s"
proof -
  from assms(4) have kept: "list_all kept_line (split_lf s)" and free: "domain_free None s"
    by (simp_all add: settled_def)
  have 1: "norm_breaks s = s" using assms(1) by (rule norm_breaks_id)
  have 2: "strip_blank_before_lf s = s"
    using kept by (intro strip_blank_before_lf_id kept_lines_trimmed)
  have 3: "collapse_lf s = s" using assms(3) by (rule collapse_lf_id)
  have 4: "clean_lines (split_lf s) = split_lf s" using kept by (rule clean_lines_id)
  have 5: "strip_domains None s = s" using free by (rule strip_domains_free)
  have 6: "collapse_blanks s = s" using assms(2) by (rule collapse_blanks_id)
  show ?thesis
    unfolding cleanGlmMarkdown_def Let_def 1 2 3 4 join_split_lf 5 6 ..
qed

text \<open>A text that is like a cleaned one and that the cleanup leaves as it is, is settled:
  no pass makes a text longer, so every pass has kept the length.\<close>

lemma fixed_settled:
  assumes "CR \<notin> set s" and "\<not> sublist [LF, LF, LF] s" and "cleanGlmMarkdown s = s"
  shows "settled s"
proof -
  define a where "a = strip_blank_before_lf s"
  define b where "b = js_join [LF] (clean_lines (split_lf (collapse_lf a)))"
  define c where "c = strip_domains None b"
  define d where "d = collapse_lf (collapse_blanks c)"
  have n: "norm_breaks s = s" using assms(1) by (rule norm_breaks_id)
  have e: "cleanGlmMarkdown s = js_trim d"
    by (simp add: cleanGlmMarkdown_def Let_def n a_def b_def c_def d_def)
  have la: "length a \<le> length s" unfolding a_def by (rule length_strip_blank_before_lf)
  have "length b \<le> length (js_join [LF] (split_lf (collapse_lf a)))"
    unfolding b_def by (rule length_joined_clean_lines)
  then have lb: "length b \<le> length (collapse_lf a)" by (simp add: join_split_lf)
  have lf: "length (collapse_lf a) \<le> length a" by (rule length_collapse_lf)
  have lc: "length c \<le> length b" unfolding c_def by (rule length_strip_domains)
  have "length d \<le> length (collapse_blanks c)" unfolding d_def by (rule length_collapse_lf)
  also have "\<dots> \<le> length c" by (rule length_collapse_blanks)
  finally have ld: "length d \<le> length c" .
  have "length s = length (js_trim d)" using assms(3) e by simp
  also have "\<dots> \<le> length d" by (rule length_js_trim)
  finally have ls: "length s \<le> length d" .
  from la lb lf lc ld ls have "length a = length s" by simp
  then have a: "a = s" unfolding a_def by (rule strip_blank_before_lf_same_length)
  have f: "collapse_lf s = s" using assms(2) by (rule collapse_lf_id)
  have b: "b = js_join [LF] (clean_lines (split_lf s))" by (simp add: b_def a f)
  from la lb lf lc ld ls have "length b = length s" by simp
  then have "length (js_join [LF] (clean_lines (split_lf s))) = length (js_join [LF] (split_lf s))"
    by (simp add: b join_split_lf)
  then have kept: "list_all kept_line (split_lf s)"
    using split_lf_nonempty by (rule joined_clean_lines_same)
  then have "b = s" by (simp add: b clean_lines_id join_split_lf)
  moreover from la lb lf lc ld ls have "length c = length b" by simp
  ultimately have "length (strip_domains None s) = length s" by (simp add: c_def)
  then have "domain_free None s" by (rule strip_domains_same_length)
  with kept show ?thesis by (simp add: settled_def)
qed

subsection \<open>A line feed at the end\<close>

lemma LF_classes: "\<not> is_label LF" "\<not> is_letter LF" "\<not> is_word LF"
  by (simp_all add: is_label_def is_letter_def is_word_def is_digit_def)

lemma takeWhile_snoc_other: "\<not> P w \<Longrightarrow> takeWhile P (xs @ [w]) = takeWhile P xs"
  by (induction xs) auto

lemma group_ends_snoc_LF:
  "off \<le> length s \<Longrightarrow> group_ends (s @ [LF]) off = group_ends s off"
proof (induction s off rule: group_ends.induct)
  case (1 s off)
  define n where "n = length (takeWhile is_label (drop off s))"
  have t: "takeWhile is_label (drop off s @ [LF]) = takeWhile is_label (drop off s)"
    by (simp add: takeWhile_snoc_other LF_classes)
  have d: "drop off (s @ [LF]) = drop off s @ [LF]" using "1.prems" by simp
  have le: "off + n \<le> length s"
    unfolding n_def using length_takeWhile_le [of is_label "drop off s"] "1.prems" by simp
  show ?case
  proof (cases "0 < n \<and> off + n < length s \<and> s ! (off + n) = DOT")
    case True
    then have "group_ends (s @ [LF]) (off + n + 1) = group_ends s (off + n + 1)"
      using "1.IH" [of n] by (simp add: n_def)
    moreover have "group_ends s off = (off + n + 1) # group_ends s (off + n + 1)"
      using True by (subst group_ends.simps) (simp add: n_def Let_def)
    moreover have "group_ends (s @ [LF]) off = (off + n + 1) # group_ends (s @ [LF]) (off + n + 1)"
      using True by (subst group_ends.simps) (simp add: d t n_def [symmetric] Let_def nth_append del: drop_append)
    ultimately show ?thesis by simp
  next
    case False
    then have "group_ends s off = []"
      by (subst group_ends.simps) (auto simp: n_def Let_def)
    moreover have "\<not> (0 < n \<and> off + n < length (s @ [LF]) \<and> (s @ [LF]) ! (off + n) = DOT)"
      using False le by (cases "off + n = length s") (auto simp: nth_append)
    then have "group_ends (s @ [LF]) off = []"
      by (subst group_ends.simps) (simp add: d t n_def [symmetric] Let_def del: drop_append)
    ultimately show ?thesis by simp
  qed
qed

lemma group_ends_le: "off \<le> length s \<Longrightarrow> q \<in> set (group_ends s off) \<Longrightarrow> q \<le> length s"
proof (induction s off rule: group_ends.induct)
  case (1 s off)
  define n where "n = length (takeWhile is_label (drop off s))"
  show ?case
  proof (cases "0 < n \<and> off + n < length s \<and> s ! (off + n) = DOT")
    case True
    then have g: "group_ends s off = (off + n + 1) # group_ends s (off + n + 1)"
      by (subst group_ends.simps) (simp add: n_def Let_def)
    with "1.prems"(2) consider "q = off + n + 1" | "q \<in> set (group_ends s (off + n + 1))" by auto
    then show ?thesis
    proof cases
      case 1
      with True show ?thesis by simp
    next
      case 2
      with True "1.IH" [of n] show ?thesis by (simp add: n_def)
    qed
  next
    case False
    then have "group_ends s off = []"
      by (subst group_ends.simps) (auto simp: n_def Let_def)
    with "1.prems"(2) show ?thesis by simp
  qed
qed

lemma tld_end_snoc_LF: "q \<le> length s \<Longrightarrow> tld_end (s @ [LF]) q = tld_end s q"
proof -
  assume q: "q \<le> length s"
  define n where "n = length (takeWhile is_letter (drop q s))"
  have t: "takeWhile is_letter (drop q (s @ [LF])) = takeWhile is_letter (drop q s)"
    using q by (simp add: takeWhile_snoc_other LF_classes)
  have le: "q + n \<le> length s"
    unfolding n_def using length_takeWhile_le [of is_letter "drop q s"] q by simp
  have a: "drop (q + n) (s @ [LF]) = drop (q + n) s @ [LF]" using le by simp
  have "(drop (q + n) (s @ [LF]) = [] \<or>
         (\<not> is_word (hd (drop (q + n) (s @ [LF]))) \<and> hd (drop (q + n) (s @ [LF])) \<noteq> 0x29)) =
        (drop (q + n) s = [] \<or> (\<not> is_word (hd (drop (q + n) s)) \<and> hd (drop (q + n) s) \<noteq> 0x29))"
    unfolding a by (cases "drop (q + n) s") (simp_all add: LF_classes)
  then show ?thesis
    unfolding tld_end_def t n_def [symmetric] Let_def by simp
qed

lemma first_tld_snoc_LF:
  "\<forall>q \<in> set qs. q \<le> length s \<Longrightarrow> first_tld (s @ [LF]) qs = first_tld s qs"
  by (induction qs) (simp_all add: tld_end_snoc_LF split: option.splits)

lemma match_domain_snoc_LF:
  "s \<noteq> [] \<Longrightarrow> match_domain prev (s @ [LF]) = match_domain prev s"
proof -
  assume s: "s \<noteq> []"
  have "first_tld (s @ [LF]) (rev (group_ends s 0)) = first_tld s (rev (group_ends s 0))"
    using group_ends_le [of 0 s] by (intro first_tld_snoc_LF) simp
  with s show ?thesis by (simp add: match_domain_def group_ends_snoc_LF hd_append)
qed

lemma match_domain_LF: "match_domain prev [LF] = None"
proof -
  have "group_ends [LF] 0 = []" by (subst group_ends.simps) (simp add: LF_classes)
  then show ?thesis by (simp add: match_domain_def)
qed

lemma domain_free_snoc_LF: "domain_free prev s \<Longrightarrow> domain_free prev (s @ [LF])"
proof (induction s arbitrary: prev)
  case Nil
  then show ?case by (simp add: match_domain_LF)
next
  case (Cons c r)
  have "match_domain prev ((c # r) @ [LF]) = match_domain prev (c # r)"
    by (rule match_domain_snoc_LF) simp
  with Cons show ?case by simp
qed

lemma no_triple_snoc_LF:
  assumes "\<not> sublist [LF, LF, LF] y" and "js_trim y = y" and "y \<noteq> []"
  shows "\<not> sublist [LF, LF, LF] (y @ [LF])"
proof
  assume "sublist [LF, LF, LF] (y @ [LF])"
  with assms(1) obtain p q where pq: "[LF, LF, LF] = p @ q" "suffix p y" "prefix q [LF]"
    unfolding sublist_append by (auto simp: sublist_Cons_right)
  from pq(3) consider "q = []" | "q = [LF]" by (cases q) auto
  then show False
  proof cases
    case 1
    with pq have "suffix [LF, LF, LF] y" by simp
    with assms(1) show False by (simp add: suffix_imp_sublist)
  next
    case 2
    with pq(1) have "p = [LF, LF]" by simp
    with pq(2) assms(3) have "last y = LF" by (auto simp: suffix_def)
    moreover from assms(2,3) have "\<not> is_space (last y)" unfolding js_trim_fixed_iff by simp
    ultimately show False by (simp add: is_space_LF)
  qed
qed

lemma js_trim_snoc_LF:
  assumes "js_trim y = y" and "y \<noteq> []"
  shows "js_trim (y @ [LF]) = y"
proof -
  from assms have h: "\<not> is_space (hd y)" and l: "\<not> is_space (last y)"
    unfolding js_trim_fixed_iff by simp_all
  from h assms(2) have 1: "dropWhile is_space (y @ [LF]) = y @ [LF]" by (cases y) auto
  from l assms(2) have "\<not> is_space (hd (rev y))" unfolding hd_rev by simp
  with assms(2) have "dropWhile is_space (rev y) = rev y" by (cases "rev y") auto
  then show ?thesis unfolding js_trim_def 1 by (simp add: is_space_LF)
qed

lemma clean_empty: "cleanGlmMarkdown [] = []"
  by code_simp

lemma settled_snoc_LF: "settled y \<Longrightarrow> settled (y @ [LF])"
  by (simp add: settled_def split_lf_snoc_LF domain_free_snoc_LF kept_line_def)

text \<open>
  C2 (amended). Cleaning the cleaned text gives the cleaned text again exactly when the
  cleaned text is settled: each of its lines is empty, or has no white space at either
  end and is neither a boilerplate phrase, nor a number of one to three digits, nor a
  domain name, and the pattern of the domain names matches nowhere in it. For such an
  input \<open>cleanMarkdown\<close> of the command-line converter, which adds a line feed to a
  non-empty result, is idempotent as well.
\<close>

theorem C2_clean_idempotent:
  "(cleanGlmMarkdown (cleanGlmMarkdown x) = cleanGlmMarkdown x \<longleftrightarrow>
      settled (cleanGlmMarkdown x)) \<and>
   (settled (cleanGlmMarkdown x) \<longrightarrow> cleanMarkdown (cleanMarkdown x) = cleanMarkdown x)"
proof -
  define y where "y = cleanGlmMarkdown x"
  have cr: "CR \<notin> set y" and nbp: "no_blank_pair y" and nt: "\<not> sublist [LF, LF, LF] y"
    and tr: "js_trim y = y"
    unfolding y_def by (rule clean_result)+
  have 1: "cleanGlmMarkdown y = y" if "settled y"
    using cr nbp nt that tr by (simp add: clean_settled)
  have 2: "settled y" if "cleanGlmMarkdown y = y"
    using cr nt that by (rule fixed_settled)
  have 3: "cleanMarkdown (cleanMarkdown x) = cleanMarkdown x" if s: "settled y"
  proof (cases "y = []")
    case True
    then show ?thesis by (simp add: cleanMarkdown_def y_def [symmetric] clean_empty)
  next
    case False
    have "no_blank_pair (y @ [LF])" using nbp no_blank_pair_append_LF [of y "[]"] by simp
    moreover have "\<not> sublist [LF, LF, LF] (y @ [LF])" using nt tr False by (rule no_triple_snoc_LF)
    moreover have "CR \<notin> set (y @ [LF])" using cr by simp
    ultimately have "cleanGlmMarkdown (y @ [LF]) = js_trim (y @ [LF])"
      using s by (intro clean_settled settled_snoc_LF)
    also have "\<dots> = y" using tr False by (rule js_trim_snoc_LF)
    finally show ?thesis using False by (simp add: cleanMarkdown_def y_def [symmetric])
  qed
  from 1 2 3 show ?thesis unfolding y_def by blast
qed

text \<open>The theorem at a text with full stops, two adjacent blanks and a domain name between
  two words, whose cleaned text is settled.\<close>

definition prose_text :: jsstring where
  "prose_text = js ''It costs 3.14 dollars.  Hello a.com world.''"

theorem C2_clean_idempotent_witness:
  "cleanGlmMarkdown prose_text = js ''It costs 3.14 dollars. Hello world.'' \<and>
   settled (cleanGlmMarkdown prose_text) \<and>
   cleanGlmMarkdown (cleanGlmMarkdown prose_text) = cleanGlmMarkdown prose_text \<and>
   cleanMarkdown (cleanMarkdown prose_text) = cleanMarkdown prose_text"
proof -
  have a: "cleanGlmMarkdown prose_text = js ''It costs 3.14 dollars. Hello world.''"
    by code_simp
  have b: "settled (js ''It costs 3.14 dollars. Hello world.'')" by code_simp
  from C2_clean_idempotent [of prose_text] a b show ?thesis by simp
qed

text \<open>
  C2 as stated fails. In \<open>12 a.com\<close> the line is kept, the domain name is removed from it
  and the text is trimmed, which leaves \<open>12\<close>; the second application drops that line as a
  line of one to three digits and returns the empty text.
\<close>

theorem C2_second_pass_counterexample:
  "cleanGlmMarkdown (js ''12 a.com'') = js ''12'' \<and>
   cleanGlmMarkdown (cleanGlmMarkdown (js ''12 a.com'')) = [] \<and>
   cleanMarkdown (js ''12 a.com'') = js ''12'' @ [LF] \<and>
   cleanMarkdown (cleanMarkdown (js ''12 a.com'')) = []"
proof -
  have 1: "cleanGlmMarkdown (js ''12 a.com'') = js ''12''" by code_simp
  have 2: "cleanGlmMarkdown (js ''12'') = []" by code_simp
  have 3: "cleanGlmMarkdown (js ''12'' @ [LF]) = []" by code_simp
  have 4: "js ''12'' \<noteq> []" by code_simp
  show ?thesis unfolding cleanMarkdown_def Let_def 1 2 using 3 4 by simp
qed

section \<open>Content-id references: what the attribute pass does\<close>

lemma elements_map_elements:
  "elements (map_elements f d) = map (\<lambda>(t, as). (t, f as)) (elements d)"
proof (induction d)
  case (Text t)
  then show ?case by simp
next
  case (Element tag attrs kids)
  then have "map (\<lambda>k. elements (map_elements f k)) kids =
      map (\<lambda>k. map (\<lambda>(t, as). (t, f as)) (elements k)) kids"
    by (intro map_cong) simp_all
  then have "concat (map (\<lambda>k. elements (map_elements f k)) kids) =
      concat (map (\<lambda>k. map (\<lambda>(t, as). (t, f as)) (elements k)) kids)"
    by (rule arg_cong)
  then show ?case by (simp add: comp_def map_concat)
qed

lemma map_of_rewrite_attr:
  "map_of (rewrite_attr m a as) k =
     (if k = a then map_option (cid_rule m) (map_of as k) else map_of as k)"
  by (auto simp: rewrite_attr_def cid_rule_def update_conv' split: option.splits)

lemma cid_attrs_eq:
  "js ''src'' = [0x73, 0x72, 0x63]" "js ''href'' = [0x68, 0x72, 0x65, 0x66]"
  "js ''poster'' = [0x70, 0x6F, 0x73, 0x74, 0x65, 0x72]" "js ''cid:'' = [0x63, 0x69, 0x64, 0x3A]"
  by (simp_all add: js_def)

lemma js_data: "js ''data:'' = [0x64, 0x61, 0x74, 0x61, 0x3A]"
  by (simp add: js_def)

lemma data_uri_not_cid: "\<not> startsWith (toDataUri p) (js ''cid:'')"
  by (simp add: toDataUri_def startsWith_def js_data cid_attrs_eq)

lemma cid_rule_idem: "cid_rule m (cid_rule m v) = cid_rule m v"
  by (auto simp: cid_rule_def data_uri_not_cid split: option.splits)

definition rewrite_all :: "cid_map \<Rightarrow> (jsstring \<times> jsstring) list \<Rightarrow> (jsstring \<times> jsstring) list" where
  "rewrite_all m as = rewrite_attr m (js ''poster'') (rewrite_attr m (js ''href'') (rewrite_attr m (js ''src'') as))"

lemma map_of_rewrite_all:
  "map_of (rewrite_all m as) k =
     (if k \<in> set cid_attrs then map_option (cid_rule m) (map_of as k) else map_of as k)"
  unfolding rewrite_all_def cid_attrs_def
  by (simp add: map_of_rewrite_attr cid_attrs_eq)

lemma attr_pass_elements:
  "concat (map elements (attr_pass m doc)) =
     map (\<lambda>(t, as). (t, rewrite_all m as)) (concat (map elements doc))"
proof -
  have 1: "concat (map elements (map (map_elements f) d)) =
      map (\<lambda>(t, as). (t, f as)) (concat (map elements d))" for f d
    by (simp add: map_concat comp_def elements_map_elements)
  have "attr_pass m doc =
      map (map_elements (rewrite_attr m (js ''poster'')))
        (map (map_elements (rewrite_attr m (js ''href'')))
          (map (map_elements (rewrite_attr m (js ''src''))) doc))"
    by (simp add: attr_pass_def cid_attrs_def)
  then have "concat (map elements (attr_pass m doc)) =
      map (\<lambda>(t, as). (t, rewrite_attr m (js ''poster'') as))
        (map (\<lambda>(t, as). (t, rewrite_attr m (js ''href'') as))
          (map (\<lambda>(t, as). (t, rewrite_attr m (js ''src'') as)) (concat (map elements doc))))"
    by (simp only: 1)
  also have "\<dots> = map (\<lambda>(t, as). (t, rewrite_all m as)) (concat (map elements doc))"
    by (simp add: comp_def case_prod_unfold rewrite_all_def)
  finally show ?thesis .
qed

text \<open>
  C6. After the pass over \<open>link\<close> elements, the pass over \<open>src\<close>, \<open>href\<close> and \<open>poster\<close>
  keeps every element of the document in its place, with its tag; the value of each of
  these three attributes becomes the data URI of the part when it begins with \<open>cid:\<close>
  and its normalized key is in the map, and is left unchanged otherwise; no other
  attribute changes.
\<close>

theorem C6_cid_attributes:
  assumes "i < length (doc_elements (link_pass_doc css cidMap doc))"
  shows "length (doc_elements (cid_rewrite css cidMap doc)) =
           length (doc_elements (link_pass_doc css cidMap doc)) \<and>
         fst (doc_elements (cid_rewrite css cidMap doc) ! i) =
           fst (doc_elements (link_pass_doc css cidMap doc) ! i) \<and>
         map_of (snd (doc_elements (cid_rewrite css cidMap doc) ! i)) k =
           (if k \<in> set cid_attrs
            then map_option (cid_rule cidMap)
                   (map_of (snd (doc_elements (link_pass_doc css cidMap doc) ! i)) k)
            else map_of (snd (doc_elements (link_pass_doc css cidMap doc) ! i)) k)"
proof -
  define before where "before = doc_elements (link_pass_doc css cidMap doc)"
  have e: "doc_elements (cid_rewrite css cidMap doc) =
      map (\<lambda>(t, as). (t, rewrite_all cidMap as)) before"
    unfolding doc_elements_def cid_rewrite_def before_def by (rule attr_pass_elements)
  from assms have i: "i < length before" by (simp add: before_def)
  obtain t as where b: "before ! i = (t, as)" by (cases "before ! i")
  from i b have "doc_elements (cid_rewrite css cidMap doc) ! i = (t, rewrite_all cidMap as)"
    by (simp add: e)
  with b e show ?thesis
    unfolding before_def [symmetric] by (simp add: map_of_rewrite_all)
qed

lemma js_literals:
  "js ''html'' = [0x68, 0x74, 0x6D, 0x6C]" "js ''img'' = [0x69, 0x6D, 0x67]"
  "js ''link'' = [0x6C, 0x69, 0x6E, 0x6B]" "js ''cid:img1'' = [0x63, 0x69, 0x64, 0x3A, 0x69, 0x6D, 0x67, 0x31]"
  "js ''img1'' = [0x69, 0x6D, 0x67, 0x31]" "js ''cid:x'' = [0x63, 0x69, 0x64, 0x3A, 0x78]"
  "js ''image/png'' = [0x69, 0x6D, 0x61, 0x67, 0x65, 0x2F, 0x70, 0x6E, 0x67]"
  "js '';base64,'' = [0x3B, 0x62, 0x61, 0x73, 0x65, 0x36, 0x34, 0x2C]"
  "js ''AQID'' = [0x41, 0x51, 0x49, 0x44]"
  by (simp_all add: js_def)

lemma b64_alphabet_eq:
  "b64_alphabet =
     [0x41, 0x42, 0x43, 0x44, 0x45, 0x46, 0x47, 0x48, 0x49, 0x4A, 0x4B, 0x4C, 0x4D, 0x4E, 0x4F, 0x50,
      0x51, 0x52, 0x53, 0x54, 0x55, 0x56, 0x57, 0x58, 0x59, 0x5A, 0x61, 0x62, 0x63, 0x64, 0x65, 0x66,
      0x67, 0x68, 0x69, 0x6A, 0x6B, 0x6C, 0x6D, 0x6E, 0x6F, 0x70, 0x71, 0x72, 0x73, 0x74, 0x75, 0x76,
      0x77, 0x78, 0x79, 0x7A, 0x30, 0x31, 0x32, 0x33, 0x34, 0x35, 0x36, 0x37, 0x38, 0x39, 0x2B, 0x2F]"
  by (simp add: b64_alphabet_def js_def)

lemma base64_of_123: "bytesToBase64 [1, 2, 3] = js ''AQID''"
proof -
  have "from_char_chunks [1, 2, 3] 0 = [1, 2, 3]"
    by (subst from_char_chunks.simps, subst from_char_chunks.simps) simp
  then show ?thesis
    by (simp add: bytesToBase64_def b64_char_def b64_alphabet_eq js_literals)
qed

lemma normalizeCid_img1: "normalizeCid (js ''cid:img1'') = js ''img1''"
  by (simp add: normalizeCid_def startsWith_def js_trim_def is_space_def js_literals cid_attrs_eq)

theorem C6_cid_attributes_witness:
  "1 < length (doc_elements (link_pass_doc (\<lambda>p. []) [js ''img1'' \<mapsto>
        \<lparr>headers = Map.empty, contentType = js ''image/png'', charset = None, bytes = [1, 2, 3]\<rparr>]
        [Element (js ''html'') [] [Element (js ''img'') [(js ''src'', js ''cid:img1'')] []]])) \<and>
   map_of (snd (doc_elements (cid_rewrite (\<lambda>p. []) [js ''img1'' \<mapsto>
        \<lparr>headers = Map.empty, contentType = js ''image/png'', charset = None, bytes = [1, 2, 3]\<rparr>]
        [Element (js ''html'') [] [Element (js ''img'') [(js ''src'', js ''cid:img1'')] []]]) ! 1))
     (js ''src'') =
   Some (js ''data:'' @ js ''image/png'' @ js '';base64,'' @ js ''AQID'')"
proof -
  define P :: part where
    "P = \<lparr>headers = Map.empty, contentType = js ''image/png'', charset = None, bytes = [1, 2, 3]\<rparr>"
  define D where "D = [Element (js ''html'') [] [Element (js ''img'') [(js ''src'', js ''cid:img1'')] []]]"
  have b: "doc_elements (link_pass_doc (\<lambda>p. []) [js ''img1'' \<mapsto> P] D) =
      [(js ''html'', []), (js ''img'', [(js ''src'', js ''cid:img1'')])]"
    by (simp add: doc_elements_def link_pass_doc_def D_def js_literals)
  then have h: "1 < length (doc_elements (link_pass_doc (\<lambda>p. []) [js ''img1'' \<mapsto> P] D))"
    by simp
  have s: "js ''src'' \<in> set cid_attrs" by (simp add: cid_attrs_def)
  have r: "cid_rule [js ''img1'' \<mapsto> P] (js ''cid:img1'') =
      js ''data:'' @ js ''image/png'' @ js '';base64,'' @ js ''AQID''"
    unfolding cid_rule_def normalizeCid_img1
    by (simp add: startsWith_def js_literals cid_attrs_eq toDataUri_def P_def base64_of_123)
  from C6_cid_attributes [OF h, of "js ''src''"]
  have x: "map_of (snd (doc_elements (cid_rewrite (\<lambda>p. []) [js ''img1'' \<mapsto> P] D) ! 1)) (js ''src'') =
      Some (js ''data:'' @ js ''image/png'' @ js '';base64,'' @ js ''AQID'')"
    unfolding b using s r by simp
  from h x show ?thesis
    unfolding P_def D_def by (rule conjI)
qed

text \<open>
  A \<open>link\<close> element whose \<open>href\<close> begins with \<open>cid:\<close> and does not resolve is removed
  from the document: its attribute is not left unchanged.
\<close>

theorem C6_unresolved_link_counterexample:
  "cid_rewrite (\<lambda>p. []) Map.empty
     [Element (js ''html'') [] [Element (js ''link'') [(js ''href'', js ''cid:x'')] []]] =
   [Element (js ''html'') [] []]"
proof -
  have "link_pass_doc (\<lambda>p. []) Map.empty
      [Element (js ''html'') [] [Element (js ''link'') [(js ''href'', js ''cid:x'')] []]] =
      [Element (js ''html'') [] []]"
    by (simp add: link_pass_doc_def startsWith_def js_literals cid_attrs_eq)
  then show ?thesis
    by (simp add: cid_rewrite_def attr_pass_def cid_attrs_def rewrite_attr_def)
qed

section \<open>The multipart reader: when it throws\<close>

subsection \<open>The parameter of a header value\<close>

lemma not_space_EQUALS: "\<not> is_space EQUALS"
  by (simp add: is_space_def)

lemma not_space_quote: "\<not> is_space (0x22 :: jschar)"
  by (simp add: is_space_def)

lemma takeWhile_until: "c \<notin> set q \<Longrightarrow> takeWhile (\<lambda>x. x \<noteq> c) (q @ c # t) = q"
  by (induction q) auto

lemma quoted_run_iff: "quoted_run rest = Some q \<longleftrightarrow> quoted_value rest q"
proof
  assume a: "quoted_run rest = Some q"
  define d where "d = dropWhile (\<lambda>x. x \<noteq> 0x22) (tl rest)"
  from a have r: "rest \<noteq> []" "hd rest = 0x22" and q: "q = takeWhile (\<lambda>x. x \<noteq> 0x22) (tl rest)"
    and n: "q \<noteq> []" and l: "length q < length (tl rest)"
    by (auto simp: quoted_run_def Let_def split: if_splits)
  from q have e: "tl rest = q @ d" by (simp add: d_def)
  with l have "d \<noteq> []" by auto
  then have "hd d = 0x22" unfolding d_def using hd_dropWhile [of "\<lambda>x. x \<noteq> 0x22" "tl rest"] by simp
  with \<open>d \<noteq> []\<close> obtain t where "d = 0x22 # t" by (cases d) auto
  with e r have "rest = (0x22 # q @ [0x22]) @ t" by (cases rest) auto
  then have "prefix (0x22 # q @ [0x22]) rest" unfolding prefix_def by blast
  moreover from q have "0x22 \<notin> set q" by (auto dest: set_takeWhileD)
  ultimately show "quoted_value rest q" using n unfolding quoted_value_def by blast
next
  assume "quoted_value rest q"
  then obtain t where r: "rest = 0x22 # q @ 0x22 # t" and q: "q \<noteq> []" "0x22 \<notin> set q"
    by (auto simp: quoted_value_def prefix_def)
  from q(2) have "takeWhile (\<lambda>x. x \<noteq> 0x22) (q @ 0x22 # t) = q"
    by (rule takeWhile_until)
  with q(1) show "quoted_run rest = Some q" by (simp add: quoted_run_def r)
qed

lemma bare_run_iff: "bare_run rest = Some b \<longleftrightarrow> bare_value rest b"
  by (auto simp: bare_run_def bare_value_def Let_def)

lemma value_first_unit:
  assumes "quoted_value rest v \<or> bare_value rest v"
  shows "rest \<noteq> [] \<and> \<not> is_space (hd rest)"
  using assms
proof
  assume "quoted_value rest v"
  then show ?thesis by (auto simp: quoted_value_def prefix_def not_space_quote)
next
  assume b: "bare_value rest v"
  have "takeWhile (\<lambda>x. x \<noteq> 0x3B \<and> \<not> is_space x) rest \<noteq> []"
  proof
    assume "takeWhile (\<lambda>x. x \<noteq> 0x3B \<and> \<not> is_space x) rest = []"
    with b show False by (simp add: bare_value_def)
  qed
  then show ?thesis by (cases rest) (auto split: if_splits)
qed

lemma value_at_iff:
  "(case quoted_run rest of Some q \<Rightarrow> Some q | None \<Rightarrow> bare_run rest) = Some v \<longleftrightarrow>
     quoted_value rest v \<or> (\<not> (\<exists>q. quoted_value rest q) \<and> bare_value rest v)"
proof (cases "quoted_run rest")
  case None
  then have "\<not> quoted_value rest q" for q using quoted_run_iff [of rest q] by simp
  with None show ?thesis by (simp add: bare_run_iff)
next
  case (Some q)
  then have q: "quoted_value rest q" by (simp add: quoted_run_iff)
  have "quoted_value rest u \<longleftrightarrow> u = q" for u
    using Some quoted_run_iff [of rest u] by auto
  with Some q show ?thesis by auto
qed

lemma match_param_at_iff: "match_param_at key s = Some v \<longleftrightarrow> param_at key s v"
proof
  assume m: "match_param_at key s = Some v"
  define k where "k = take (length key) s"
  define w1 where "w1 = takeWhile is_space (drop (length key) s)"
  define r1 where "r1 = dropWhile is_space (drop (length key) s)"
  from m have len: "length key \<le> length s" and low: "ascii_lower k = ascii_lower key"
    by (auto simp: match_param_at_def k_def split: if_splits)
  from m len low have m': "(case r1 of [] \<Rightarrow> None
      | c # r \<Rightarrow>
          if c \<noteq> EQUALS then None
          else
            (let v = dropWhile is_space r
             in case quoted_run v of Some q \<Rightarrow> Some q | None \<Rightarrow> bare_run v)) = Some v"
    unfolding match_param_at_def k_def r1_def by simp
  then obtain r where r1: "r1 = EQUALS # r"
    by (cases r1) (auto split: if_splits)
  define w2 where "w2 = takeWhile is_space r"
  define rest where "rest = dropWhile is_space r"
  have s: "s = k @ w1 @ EQUALS # w2 @ rest"
  proof -
    have a: "s = k @ drop (length key) s" by (simp add: k_def)
    have b: "drop (length key) s = w1 @ r1" by (simp add: w1_def r1_def)
    have c: "r = w2 @ rest" by (simp add: w2_def rest_def)
    from a b c r1 show ?thesis by simp
  qed
  have sp: "list_all is_space w1" "list_all is_space w2"
    by (auto simp: w1_def w2_def list_all_iff dest: set_takeWhileD)
  from m' have "(case quoted_run rest of Some q \<Rightarrow> Some q | None \<Rightarrow> bare_run rest) = Some v"
    unfolding r1 rest_def by (simp add: Let_def)
  then have v: "quoted_value rest v \<or> (\<not> (\<exists>q. quoted_value rest q) \<and> bare_value rest v)"
    unfolding value_at_iff .
  from len have "length k = length key" by (simp add: k_def)
  with s low sp v show "param_at key s v" unfolding param_at_def by blast
next
  assume "param_at key s v"
  then obtain k w1 w2 rest where s: "s = k @ w1 @ EQUALS # w2 @ rest"
    and k: "length k = length key" "ascii_lower k = ascii_lower key"
    and sp: "list_all is_space w1" "list_all is_space w2"
    and v: "quoted_value rest v \<or> (\<not> (\<exists>q. quoted_value rest q) \<and> bare_value rest v)"
    unfolding param_at_def by blast
  from v have hd: "rest \<noteq> [] \<and> \<not> is_space (hd rest)" using value_first_unit by blast
  have 1: "take (length key) s = k" "drop (length key) s = w1 @ EQUALS # w2 @ rest"
    using k(1) by (simp_all add: s)
  have 2: "dropWhile is_space (w1 @ EQUALS # w2 @ rest) = EQUALS # w2 @ rest"
  proof -
    have "dropWhile is_space (w1 @ EQUALS # w2 @ rest) = dropWhile is_space (EQUALS # w2 @ rest)"
      using sp(1) by (intro dropWhile_append2) (simp add: list_all_iff)
    then show ?thesis by (simp add: not_space_EQUALS)
  qed
  have 3: "dropWhile is_space (w2 @ rest) = rest"
  proof -
    have "dropWhile is_space (w2 @ rest) = dropWhile is_space rest"
      using sp(2) by (intro dropWhile_append2) (simp add: list_all_iff)
    with hd show ?thesis by (cases rest) auto
  qed
  have len: "length key \<le> length s" using k(1) by (simp add: s)
  from v have 4: "(case quoted_run rest of Some q \<Rightarrow> Some q | None \<Rightarrow> bare_run rest) = Some v"
    unfolding value_at_iff .
  have "match_param_at key s = (case quoted_run rest of Some q \<Rightarrow> Some q | None \<Rightarrow> bare_run rest)"
    unfolding match_param_at_def 1 2 using len k(2) by (simp add: 3 Let_def split: option.splits)
  with 4 show "match_param_at key s = Some v" by simp
qed

lemma param_at_unique: "param_at key s v \<Longrightarrow> param_at key s u \<Longrightarrow> u = v"
  unfolding match_param_at_iff [symmetric] by simp

lemma param_at_Nil: "\<not> param_at key [] v"
  by (simp add: param_at_def)

lemma find_param_iff: "find_param key s = Some v \<longleftrightarrow> first_param key s v"
proof (induction s)
  case Nil
  then show ?case by (simp add: first_param_def param_at_Nil)
next
  case (Cons c r)
  show ?case
  proof (cases "match_param_at key (c # r)")
    case (Some u)
    then have u: "param_at key (c # r) u" by (simp add: match_param_at_iff)
    have "first_param key (c # r) v \<longleftrightarrow> v = u"
    proof
      assume "first_param key (c # r) v"
      then obtain i where i: "param_at key (drop i (c # r)) v"
        "\<forall>j<i. \<forall>w. \<not> param_at key (drop j (c # r)) w"
        unfolding first_param_def by blast
      from i(2) u have "i = 0" by (cases i) auto
      with i(1) u show "v = u" by (simp add: param_at_unique)
    next
      assume "v = u"
      with u have "param_at key (drop 0 (c # r)) v" by simp
      then show "first_param key (c # r) v" unfolding first_param_def by blast
    qed
    with Some show ?thesis by auto
  next
    case None
    then have n: "\<not> param_at key (c # r) w" for w
      using match_param_at_iff [of key "c # r" w] by simp
    have "first_param key (c # r) v \<longleftrightarrow> first_param key r v"
    proof
      assume "first_param key (c # r) v"
      then obtain i where i: "param_at key (drop i (c # r)) v"
        "\<forall>j<i. \<forall>w. \<not> param_at key (drop j (c # r)) w"
        unfolding first_param_def by blast
      from i(1) n obtain i' where i': "i = Suc i'" by (cases i) auto
      with i(1) have "param_at key (drop i' r) v" by simp
      moreover have "\<forall>j<i'. \<forall>w. \<not> param_at key (drop j r) w"
      proof (intro allI impI)
        fix j w
        assume "j < i'"
        then have "Suc j < i" using i' by simp
        with i(2) have "\<not> param_at key (drop (Suc j) (c # r)) w" by blast
        then show "\<not> param_at key (drop j r) w" by simp
      qed
      ultimately show "first_param key r v" unfolding first_param_def by blast
    next
      assume "first_param key r v"
      then obtain i where i: "param_at key (drop i r) v"
        "\<forall>j<i. \<forall>w. \<not> param_at key (drop j r) w"
        unfolding first_param_def by blast
      have "param_at key (drop (Suc i) (c # r)) v" using i(1) by simp
      moreover have "\<forall>j<Suc i. \<forall>w. \<not> param_at key (drop j (c # r)) w"
      proof (intro allI impI)
        fix j w
        assume j: "j < Suc i"
        show "\<not> param_at key (drop j (c # r)) w"
        proof (cases j)
          case 0
          with n show ?thesis by simp
        next
          case (Suc j')
          with j i(2) show ?thesis by simp
        qed
      qed
      ultimately show "first_param key (c # r) v" unfolding first_param_def by blast
    qed
    with None Cons show ?thesis by simp
  qed
qed

lemma getParam_iff:
  "getParam value key = Some b \<longleftrightarrow> (\<exists>v. first_param key value v \<and> b = js_trim v)"
proof (cases "value = []")
  case True
  then show ?thesis by (simp add: getParam_def first_param_def param_at_Nil)
next
  case False
  then show ?thesis by (auto simp: getParam_def find_param_iff [symmetric])
qed


subsection \<open>Sections\<close>

lemma separator_iff: "blank_line_separator t \<longleftrightarrow> indexOf t (separator_of t) 0 \<noteq> None"
  by (auto simp: blank_line_separator_def separator_of_def js_includes_iff_sublist [symmetric]
      js_includes_def)

lemma base64ToBytes_error:
  "base64ToBytes body = Inl e \<longleftrightarrow>
     e = InvalidCharacterError \<and> \<not> valid_base64 (filter (\<lambda>c. \<not> is_space c) body)"
  by (auto simp: base64ToBytes_def atob_def)

lemma base64ToBytes_ok:
  "base64ToBytes body = Inr x \<Longrightarrow> valid_base64 (filter (\<lambda>c. \<not> is_space c) body)"
  by (auto simp: base64ToBytes_def atob_def split: if_splits)

lemma parse_section_error:
  "parse_section sec0 = Inl e \<longleftrightarrow> e = InvalidCharacterError \<and> rejected_section sec0"
proof -
  define sec where "sec = strip_leading_break sec0"
  show ?thesis
  proof (cases "indexOf sec (separator_of sec) 0")
    case None
    then have "\<not> blank_line_separator sec" by (simp add: separator_iff)
    with None show ?thesis
      by (simp add: parse_section_def rejected_section_def Let_def sec_def [symmetric])
  next
    case (Some idx)
    then have b: "blank_line_separator sec" by (simp add: separator_iff)
    have h: "head_text sec = slice_str sec 0 idx" using Some by (simp add: head_text_def slice_str_def)
    have t: "body_text sec = drop (idx + length (separator_of sec)) sec"
      using Some by (simp add: body_text_def)
    show ?thesis
      unfolding parse_section_def rejected_section_def Let_def sec_def [symmetric] h t
      using Some b
      by (auto simp: startsWith_def js_includes_iff_sublist base64ToBytes_error
          split: sum.splits dest: base64ToBytes_ok)
  qed
qed

lemma parse_sections_Inl:
  "parse_sections secs parts = Inl e \<longleftrightarrow>
     e = InvalidCharacterError \<and> (\<exists>sec \<in> set secs. rejected_section sec)"
proof (induction secs arbitrary: parts)
  case Nil
  then show ?case by simp
next
  case (Cons sec secs)
  show ?case
  proof (cases "parse_section sec")
    case (Inl e')
    then have "e' = InvalidCharacterError" "rejected_section sec"
      by (simp_all add: parse_section_error)
    with Inl show ?thesis by auto
  next
    case (Inr r)
    then have "\<not> rejected_section sec"
      using parse_section_error [of sec InvalidCharacterError] by simp
    with Inr Cons show ?thesis by (cases r) auto
  qed
qed

lemma parse_sections_Inr:
  "(\<exists>parts'. parse_sections secs parts = Inr parts') \<longleftrightarrow> (\<forall>sec \<in> set secs. \<not> rejected_section sec)"
proof -
  have "(\<exists>parts'. parse_sections secs parts = Inr parts') \<longleftrightarrow>
      \<not> (\<exists>e. parse_sections secs parts = Inl e)"
    by (cases "parse_sections secs parts") auto
  then show ?thesis by (simp add: parse_sections_Inl)
qed

lemma reader_errors_aux:
  assumes L: "L = decode_latin1 buf"
  shows
  "(parseMhtmlParts buf = Inl NoHeaderSeparator \<longleftrightarrow> \<not> blank_line_separator L) \<and>
   (parseMhtmlParts buf = Inl BoundaryNotFound \<longleftrightarrow>
      blank_line_separator L \<and> \<not> (\<exists>b. names_boundary L b)) \<and>
   (parseMhtmlParts buf = Inl InvalidCharacterError \<longleftrightarrow>
      blank_line_separator L \<and>
      (\<exists>b. names_boundary L b \<and> (\<exists>sec \<in> set (sections_between L b). rejected_section sec))) \<and>
   ((\<exists>parts. parseMhtmlParts buf = Inr parts) \<longleftrightarrow>
      blank_line_separator L \<and>
      (\<exists>b. names_boundary L b \<and> (\<forall>sec \<in> set (sections_between L b). \<not> rejected_section sec)))"
proof (cases "indexOf L (separator_of L) 0")
  case None
  then have "parseMhtmlParts buf = Inl NoHeaderSeparator"
    by (simp add: parseMhtmlParts_def L)
  with None show ?thesis by (simp add: separator_iff)
next
  case (Some h)
  then have sep: "blank_line_separator L" by (simp add: separator_iff)
  have rb: "root_boundary L h = getParam (root_content_type L) (js ''boundary'')"
    using Some by (simp add: root_boundary_def root_content_type_def head_text_def slice_str_def)
  have nb: "names_boundary L b \<longleftrightarrow> root_boundary L h = Some b \<and> b \<noteq> []" for b
    unfolding rb getParam_iff names_boundary_def by auto
  have bs: "body_sections L h b = sections_between L b" for b
    using Some by (simp add: body_sections_def sections_between_def body_text_def)
  show ?thesis
  proof (cases "root_boundary L h = None \<or> root_boundary L h = Some []")
    case True
    with Some have "parseMhtmlParts buf = Inl BoundaryNotFound"
      by (auto simp: parseMhtmlParts_def L [symmetric])
    moreover from True have "\<not> (\<exists>b. names_boundary L b)" unfolding nb by auto
    ultimately show ?thesis using sep by simp
  next
    case False
    then obtain b where b: "root_boundary L h = Some b" "b \<noteq> []" by auto
    then have u: "names_boundary L c \<longleftrightarrow> c = b" for c unfolding nb by auto
    from b Some have p: "parseMhtmlParts buf = parse_sections (sections_between L b) []"
      by (simp add: parseMhtmlParts_def L [symmetric] bs)
    show ?thesis
      unfolding p u using sep parse_sections_Inr [of "sections_between L b" "[]"]
      by (simp add: parse_sections_Inl)
  qed
qed


lemma names_boundary_iff:
  "names_boundary t b \<longleftrightarrow> getParam (root_content_type t) (js ''boundary'') = Some b \<and> b \<noteq> []"
  unfolding getParam_iff names_boundary_def by auto

text \<open>
  C8 (amended). \<open>parseMhtmlParts\<close> throws in exactly three cases, and returns a list of
  parts in every other case. The decoded input has no blank line. Or it has one, and the
  \<open>Content-Type\<close> of its head names no boundary: no \<open>boundary\<close> parameter stands at any
  position of the value, or the value of the first one is blank. Or a boundary is named,
  and one of the sections between its markers is rejected: it is read, its transfer
  encoding names base64 and its body is not valid base64, so that the exception of \<open>atob\<close>
  passes through.
\<close>

theorem C8_reader_errors:
  "(parseMhtmlParts buf = Inl NoHeaderSeparator \<longleftrightarrow>
      \<not> blank_line_separator (decode_latin1 buf)) \<and>
   (parseMhtmlParts buf = Inl BoundaryNotFound \<longleftrightarrow>
      blank_line_separator (decode_latin1 buf) \<and> \<not> (\<exists>b. names_boundary (decode_latin1 buf) b)) \<and>
   (parseMhtmlParts buf = Inl InvalidCharacterError \<longleftrightarrow>
      blank_line_separator (decode_latin1 buf) \<and>
      (\<exists>b. names_boundary (decode_latin1 buf) b \<and>
           (\<exists>sec \<in> set (sections_between (decode_latin1 buf) b). rejected_section sec))) \<and>
   ((\<exists>parts. parseMhtmlParts buf = Inr parts) \<longleftrightarrow>
      blank_line_separator (decode_latin1 buf) \<and>
      (\<exists>b. names_boundary (decode_latin1 buf) b \<and>
           (\<forall>sec \<in> set (sections_between (decode_latin1 buf) b). \<not> rejected_section sec)))"
  using reader_errors_aux [OF refl, of buf] .

text \<open>The theorem at an input whose only parameter is \<open>myboundary\<close>: the pattern of the
  boundary stands inside that name, the boundary is \<open>Q\<close>, and the one section is read as a
  part.\<close>

definition bytes_of :: "string \<Rightarrow> byte list" where
  "bytes_of s = map of_char s"

definition longer_name_input :: "byte list" where
  "longer_name_input = bytes_of
     ''Content-Type: a; myboundary=Q\<newline>\<newline>--Q\<newline>Content-Type: TEXT/PLAIN\<newline>\<newline>z''"

theorem C8_reader_errors_witness:
  "blank_line_separator (decode_latin1 longer_name_input) \<and>
   names_boundary (decode_latin1 longer_name_input) (js ''Q'') \<and>
   sections_between (decode_latin1 longer_name_input) (js ''Q'') =
     [LF # js ''Content-Type: TEXT/PLAIN'' @ [LF, LF] @ js ''z''] \<and>
   \<not> rejected_section (LF # js ''Content-Type: TEXT/PLAIN'' @ [LF, LF] @ js ''z'') \<and>
   (\<exists>parts. parseMhtmlParts longer_name_input = Inr parts)"
proof -
  have a: "blank_line_separator (decode_latin1 longer_name_input)" by code_simp
  have "getParam (root_content_type (decode_latin1 longer_name_input)) (js ''boundary'') =
      Some (js ''Q'') \<and> js ''Q'' \<noteq> []"
    by code_simp
  then have b: "names_boundary (decode_latin1 longer_name_input) (js ''Q'')"
    unfolding names_boundary_iff .
  have c: "sections_between (decode_latin1 longer_name_input) (js ''Q'') =
      [LF # js ''Content-Type: TEXT/PLAIN'' @ [LF, LF] @ js ''z'']"
    by code_simp
  have d: "\<not> rejected_section (LF # js ''Content-Type: TEXT/PLAIN'' @ [LF, LF] @ js ''z'')"
    by code_simp
  from b c d have "\<exists>b. names_boundary (decode_latin1 longer_name_input) b \<and>
      (\<forall>sec \<in> set (sections_between (decode_latin1 longer_name_input) b). \<not> rejected_section sec)"
    by (intro exI [of _ "js ''Q''"]) simp
  with C8_reader_errors [of longer_name_input] a
  have "\<exists>parts. parseMhtmlParts longer_name_input = Inr parts" by blast
  with a b c d show ?thesis by blast
qed

text \<open>
  C8 as stated fails: an input that has the blank line and a boundary parameter, and is
  cut off inside a base64 part. The reader throws.
\<close>

definition cut_off_input :: "byte list" where
  "cut_off_input = bytes_of
     ''Content-Type: a; boundary=X\<newline>\<newline>--X\<newline>Content-Transfer-Encoding: base64\<newline>\<newline>!''"

theorem C8_invalid_base64_counterexample:
  "parseMhtmlParts cut_off_input = Inl InvalidCharacterError \<and>
   blank_line_separator (decode_latin1 cut_off_input) \<and>
   root_content_type (decode_latin1 cut_off_input) = js ''a; boundary=X'' \<and>
   names_boundary (decode_latin1 cut_off_input) (js ''X'')"
proof -
  have "case parseMhtmlParts cut_off_input of Inl e \<Rightarrow> e = InvalidCharacterError | Inr ps \<Rightarrow> False"
    by code_simp
  then have 1: "parseMhtmlParts cut_off_input = Inl InvalidCharacterError"
    by (cases "parseMhtmlParts cut_off_input") simp_all
  have 2: "blank_line_separator (decode_latin1 cut_off_input)" by code_simp
  have 3: "root_content_type (decode_latin1 cut_off_input) = js ''a; boundary=X''" by code_simp
  have "getParam (root_content_type (decode_latin1 cut_off_input)) (js ''boundary'') =
      Some (js ''X'') \<and> js ''X'' \<noteq> []"
    by code_simp
  then have 4: "names_boundary (decode_latin1 cut_off_input) (js ''X'')"
    unfolding names_boundary_iff .
  from 1 2 3 4 show ?thesis by simp
qed

end
